theory Spec2Isabelle
  imports Main
begin

section \<open>The host tree\<close>

text \<open>
  Nodes of the DOM are identified by numbers; every node object ever created has a number
  below \<open>nextNode\<close>. The tree is kept as the ordered child list of every node, which
  is what \<open>parentNode\<close>, \<open>nextSibling\<close>, \<open>insertBefore\<close> and \<open>removeNode\<close> read and edit.
  Node 0 is the document.
\<close>

type_synonym node = nat
type_synonym observer = nat
type_synonym promise = nat

datatype nodeType = Document | Element | Text string | Comment string | DocumentFragment

datatype error = TypeError | RangeError | HierarchyRequestError | NotFoundError

text \<open>Keys of the WeakMap \<open>observerTrios\<close>: marker nodes and Observer objects. The map is
  kept as the list of its entries, newest first; \<open>observerTriosGet\<close> is its \<open>get\<close>.\<close>

datatype key = NodeKey node | ObserverKey observer

record observerTrio =
  start :: node
  endNode :: node
  observer :: observer

datatype call = SetThisContext node | SetArgsContext node | Stop | Start

record metaObserver =
  metaChild :: observer
  metaSelf :: node
  metaStart :: node
  metaEnd :: node

record page =
  nodeType :: "node \<Rightarrow> nodeType"
  childNodes :: "node \<Rightarrow> node list"
  nextNode :: node
  observerTrios :: "(key \<times> observerTrio) list"
  awake :: "observer \<Rightarrow> bool"
  calls :: "(observer \<times> call) list"
  metaObservers :: "metaObserver list"
  thens :: "(promise \<times> node \<times> node) list"

definition document :: node where
  "document = 0"

definition observerTriosGet :: "page \<Rightarrow> key \<Rightarrow> observerTrio option" where
  "observerTriosGet s k = map_of (observerTrios s) k"

text \<open>
  The values \<open>el\<close> accepts as children. A plain function carries the value its call
  \<open>child.call(self, self)\<close> returns; an Observer carries its identity and what reading
  \<open>child.value\<close> yields when it is appended.
\<close>

datatype child =
    Undefined
  | Null
  | Str string
  | NodeRef node
  | PromiseRef promise
  | ObserverRef observer child
  | Func child
  | Iterable "child list"
  | Unsupported

subsection \<open>Navigation\<close>

definition parentNode :: "page \<Rightarrow> node \<Rightarrow> node option" where
  "parentNode s n = find (\<lambda>p. n \<in> set (childNodes s p)) [0..<nextNode s]"

text \<open>
  The proper ancestors of a node, nearest first: the chain \<open>n.parentNode\<close>,
  \<open>n.parentNode.parentNode\<close>, ... The walk is bounded by the first argument; a chain
  of a page is shorter than the number of its nodes.
\<close>

fun ancestors :: "nat \<Rightarrow> page \<Rightarrow> node \<Rightarrow> node list" where
  "ancestors 0 s n = []"
| "ancestors (Suc k) s n =
     (case parentNode s n of None \<Rightarrow> [] | Some p \<Rightarrow> p # ancestors k s p)"

text \<open>\<open>a.contains(n)\<close>: \<open>n\<close> is \<open>a\<close> or a descendant of \<open>a\<close>.\<close>

definition contains :: "page \<Rightarrow> node \<Rightarrow> node \<Rightarrow> bool" where
  "contains s a n = (n = a \<or> a \<in> set (ancestors (nextNode s) s n))"

text \<open>
  The inclusive descendants of a node in document order, as a NodeIterator visits them,
  to the depth of the first argument.
\<close>

fun subtree :: "nat \<Rightarrow> page \<Rightarrow> node \<Rightarrow> node list" where
  "subtree 0 s n = [n]"
| "subtree (Suc k) s n = n # concat (map (subtree k s) (childNodes s n))"

definition isComment :: "page \<Rightarrow> node \<Rightarrow> bool" where
  "isComment s n = (case nodeType s n of Comment _ \<Rightarrow> True | _ \<Rightarrow> False)"

text \<open>\<open>getAllComments\<close>: the comment nodes of a subtree, the root included.\<close>

definition getAllComments :: "page \<Rightarrow> node \<Rightarrow> node list" where
  "getAllComments s root = filter (isComment s) (subtree (nextNode s) s root)"

text \<open>The chain \<open>n.nextSibling\<close>, \<open>n.nextSibling.nextSibling\<close>, ... up to \<open>null\<close>.\<close>

definition nextSiblings :: "page \<Rightarrow> node \<Rightarrow> node list" where
  "nextSiblings s n =
     (case parentNode s n of
        None \<Rightarrow> []
      | Some p \<Rightarrow> tl (dropWhile (\<lambda>x. x \<noteq> n) (childNodes s p)))"

definition nextSibling :: "page \<Rightarrow> node \<Rightarrow> node option" where
  "nextSibling s n = (case nextSiblings s n of [] \<Rightarrow> None | x # _ \<Rightarrow> Some x)"

subsection \<open>Creating and moving nodes\<close>

definition createNode :: "nodeType \<Rightarrow> page \<Rightarrow> node \<times> page" where
  "createNode t s =
     (nextNode s,
      s\<lparr>nodeType := (nodeType s)(nextNode s := t),
        childNodes := (childNodes s)(nextNode s := []),
        nextNode := Suc (nextNode s)\<rparr>)"

definition createTextNode :: "string \<Rightarrow> page \<Rightarrow> node \<times> page" where
  "createTextNode t = createNode (Text t)"

definition createComment :: "string \<Rightarrow> page \<Rightarrow> node \<times> page" where
  "createComment t = createNode (Comment t)"

text \<open>\<open>node.remove()\<close>: the node leaves its parent's child list; nothing happens to a
  node that has no parent.\<close>

definition removeNode :: "node \<Rightarrow> page \<Rightarrow> page" where
  "removeNode n s = s\<lparr>childNodes := (\<lambda>p. removeAll n (childNodes s p))\<rparr>"

fun insertAt :: "node list \<Rightarrow> node option \<Rightarrow> node list \<Rightarrow> node list" where
  "insertAt new None xs = xs @ new"
| "insertAt new (Some r) [] = new"
| "insertAt new (Some r) (x # xs) = (if x = r then new @ x # xs else x # insertAt new (Some r) xs)"

text \<open>
  \<open>parent.insertBefore(n, ref)\<close> of the DOM, after the steps of its standard: only a
  document, a document fragment or an element takes children; a node that is an inclusive
  ancestor of the parent is refused; a reference that is not a child of the parent is
  refused; a document is nobody's child; a document takes no text, and one element at
  most; a reference that is the node itself stands for its next sibling, a document
  fragment stands for its children, and a node that sits somewhere else is moved.
\<close>

definition movedNodes :: "page \<Rightarrow> node \<Rightarrow> node list" where
  "movedNodes s n = (if nodeType s n = DocumentFragment then childNodes s n else [n])"

definition isText :: "page \<Rightarrow> node \<Rightarrow> bool" where
  "isText s n = (case nodeType s n of Text _ \<Rightarrow> True | _ \<Rightarrow> False)"

definition elementsOf :: "page \<Rightarrow> node list \<Rightarrow> node list" where
  "elementsOf s ns = filter (\<lambda>c. nodeType s c = Element) ns"

definition takesChildren :: "page \<Rightarrow> node \<Rightarrow> bool" where
  "takesChildren s p = (nodeType s p = Document \<or> nodeType s p = DocumentFragment \<or> nodeType s p = Element)"

definition validChild :: "page \<Rightarrow> node \<Rightarrow> node \<Rightarrow> bool" where
  "validChild s p n =
     (if nodeType s n = Document then False
      else if nodeType s p \<noteq> Document then True
      else if isText s n then False
      else if nodeType s n = DocumentFragment then
        \<not> list_ex (isText s) (childNodes s n)
        \<and> (elementsOf s (childNodes s n) = []
            \<or> (length (elementsOf s (childNodes s n)) = 1 \<and> elementsOf s (childNodes s p) = []))
      else if nodeType s n = Element then elementsOf s (childNodes s p) = []
      else True)"

definition insertBefore :: "node \<Rightarrow> node \<Rightarrow> node option \<Rightarrow> page \<Rightarrow> error + page" where
  "insertBefore p n ref s =
     (if \<not> takesChildren s p then Inl HierarchyRequestError
      else if contains s n p then Inl HierarchyRequestError
      else if (case ref of None \<Rightarrow> False | Some r \<Rightarrow> r \<notin> set (childNodes s p)) then Inl NotFoundError
      else if \<not> validChild s p n then Inl HierarchyRequestError
      else
        let referenceChild = (if ref = Some n then nextSibling s n else ref);
            s1 = fold removeNode (movedNodes s n) s
        in Inr (s1\<lparr>childNodes :=
                    (childNodes s1)(p := insertAt (movedNodes s n) referenceChild (childNodes s1 p))\<rparr>))"

definition parentElement :: "page \<Rightarrow> node \<Rightarrow> node option" where
  "parentElement s n =
     (case parentNode s n of
        None \<Rightarrow> None
      | Some p \<Rightarrow> if nodeType s p = Element then Some p else None)"

section \<open>The Observer of reactor.js\<close>

text \<open>
  Modelled from the spec: the class \<open>Observer\<close> of \<open>reactor.js\<close>, which is imported and
  not part of this file. The spec gives its contract: \<open>start()\<close> begins or resumes
  producing output and is idempotent, \<open>stop()\<close> halts further recomputation and is
  idempotent, the two context setters configure what the computation is invoked with.
  The model keeps, for each Observer, whether it is started, and the log of the calls made
  on it. When the engine re-runs a computation is its own business; the re-render that
  follows is \<open>metaObserverRun\<close> below, with the value the Observer then has.
\<close>

definition observerStart :: "observer \<Rightarrow> page \<Rightarrow> page" where
  "observerStart u s = s\<lparr>awake := (awake s)(u := True), calls := calls s @ [(u, Start)]\<rparr>"

definition observerStop :: "observer \<Rightarrow> page \<Rightarrow> page" where
  "observerStop u s = s\<lparr>awake := (awake s)(u := False), calls := calls s @ [(u, Stop)]\<rparr>"

definition setThisContext :: "observer \<Rightarrow> node \<Rightarrow> page \<Rightarrow> page" where
  "setThisContext u n s = s\<lparr>calls := calls s @ [(u, SetThisContext n)]\<rparr>"

definition setArgsContext :: "observer \<Rightarrow> node \<Rightarrow> page \<Rightarrow> page" where
  "setArgsContext u n s = s\<lparr>calls := calls s @ [(u, SetArgsContext n)]\<rparr>"

section \<open>elementary.js\<close>

subsection \<open>getNodesBetween\<close>

fun collectUntil :: "node \<Rightarrow> node list \<Rightarrow> node list \<Rightarrow> error + node list" where
  "collectUntil e result [] = Inl RangeError"
| "collectUntil e result (currentNode # rest) =
     (if currentNode = e then Inr result else collectUntil e (result @ [currentNode]) rest)"

definition getNodesBetween :: "page \<Rightarrow> node \<Rightarrow> node \<Rightarrow> error + node list" where
  "getNodesBetween s startNode endN =
     (if parentNode s startNode = None \<or> parentNode s endN = None
         \<or> parentNode s startNode \<noteq> parentNode s endN
      then Inl RangeError
      else collectUntil endN [] (nextSiblings s startNode))"

subsection \<open>append\<close>

definition detachedPoint :: "node \<Rightarrow> node option \<Rightarrow> page \<Rightarrow> bool" where
  "detachedPoint self insertionPoint s =
     (case insertionPoint of None \<Rightarrow> False | Some i \<Rightarrow> parentElement s i \<noteq> Some self)"

definition registerTrio :: "node \<Rightarrow> node \<Rightarrow> observer \<Rightarrow> page \<Rightarrow> page" where
  "registerTrio st en u s =
     (let trio = \<lparr>start = st, endNode = en, observer = u\<rparr>
      in s\<lparr>observerTrios :=
             (ObserverKey u, trio) # (NodeKey en, trio) # (NodeKey st, trio) # observerTrios s\<rparr>)"

definition kickoff :: "node \<Rightarrow> observer \<Rightarrow> page \<Rightarrow> page" where
  "kickoff self u s =
     (let s1 = observerStart u (observerStop u (setArgsContext u self (setThisContext u self s)))
      in if \<not> contains s1 document self then observerStop u s1 else s1)"

text \<open>\<open>n instanceof Element\<close>, \<open>n instanceof DocumentFragment\<close>: \<open>n\<close> is a node object
  of the page, of that type.\<close>

definition instanceofElement :: "page \<Rightarrow> node \<Rightarrow> bool" where
  "instanceofElement s n = (n < nextNode s \<and> nodeType s n = Element)"

definition instanceofDocumentFragment :: "page \<Rightarrow> node \<Rightarrow> bool" where
  "instanceofDocumentFragment s n = (n < nextNode s \<and> nodeType s n = DocumentFragment)"

text \<open>
  \<open>appendEl\<close> is the function \<open>append\<close> nested in \<open>el\<close>; \<open>self\<close> is the element \<open>el\<close> resolved.
  \<open>forEachAppend\<close> is the \<open>for ... of\<close> loop of the iterable branch and
  \<open>metaObserverRun\<close> one run of the function given to the meta-observer, with
  \<open>result\<close> the value read from \<open>child.value\<close>. An exception does not undo what was
  done before it: each function returns the page it leaves together with what it returned
  (\<open>Inr\<close>) or threw (\<open>Inl\<close>).
\<close>

fun appendEl :: "node \<Rightarrow> child \<Rightarrow> node option \<Rightarrow> page \<Rightarrow> (error + bool) \<times> page"
and forEachAppend :: "node \<Rightarrow> child list \<Rightarrow> node option \<Rightarrow> page \<Rightarrow> (error + unit) \<times> page"
and metaObserverRun :: "node \<Rightarrow> node \<Rightarrow> node \<Rightarrow> child \<Rightarrow> page \<Rightarrow> (error + unit) \<times> page"
where
  "appendEl self Undefined insertionPoint s = (Inr False, s)"
| "appendEl self Null insertionPoint s = (Inr False, s)"
| "appendEl self (Str text) insertionPoint s =
     (if detachedPoint self insertionPoint s then (Inr False, s)
      else
        let (textNode, s1) = createTextNode text s
        in case insertBefore self textNode insertionPoint s1 of
             Inl e \<Rightarrow> (Inl e, s1)
           | Inr s2 \<Rightarrow> (Inr True, s2))"
| "appendEl self (NodeRef n) insertionPoint s =
     (if detachedPoint self insertionPoint s then (Inr False, s)
      else if instanceofElement s n \<or> instanceofDocumentFragment s n then
        (case insertBefore self n insertionPoint s of
           Inl e \<Rightarrow> (Inl e, s)
         | Inr s1 \<Rightarrow> (Inr True, s1))
      else (Inl TypeError, s))"
| "appendEl self (PromiseRef p) insertionPoint s =
     (if detachedPoint self insertionPoint s then (Inr False, s)
      else
        let (promisePlaceholder, s1) = createComment ''promisePlaceholder'' s
        in case insertBefore self promisePlaceholder insertionPoint s1 of
             Inl e \<Rightarrow> (Inl e, s1)
           | Inr s2 \<Rightarrow> (Inr True, s2\<lparr>thens := thens s2 @ [(p, self, promisePlaceholder)]\<rparr>))"
| "appendEl self (ObserverRef u v) insertionPoint s =
     (if detachedPoint self insertionPoint s then (Inr False, s)
      else
        let (observerStartNode, s1) = createComment ''observerStart'' s;
            (observerEndNode, s2) = createComment ''observerEnd'' s1
        in case insertBefore self observerStartNode insertionPoint s2 of
             Inl e \<Rightarrow> (Inl e, s2)
           | Inr s3 \<Rightarrow>
              (case insertBefore self observerEndNode insertionPoint s3 of
                 Inl e \<Rightarrow> (Inl e, s3)
               | Inr s4 \<Rightarrow>
                 (let s5 = registerTrio observerStartNode observerEndNode u s4;
                      s6 = s5\<lparr>metaObservers := metaObservers s5 @
                             [\<lparr>metaChild = u, metaSelf = self,
                               metaStart = observerStartNode, metaEnd = observerEndNode\<rparr>]\<rparr>
                  in (case metaObserverRun self observerStartNode observerEndNode v s6 of
                        (Inl e, s7) \<Rightarrow> (Inl e, s7)
                      | (Inr _, s7) \<Rightarrow> (Inr True, kickoff self u s7)))))"
| "appendEl self (Func result) insertionPoint s =
     (if detachedPoint self insertionPoint s then (Inr False, s)
      else case appendEl self result insertionPoint s of
             (Inl e, s1) \<Rightarrow> (Inl e, s1)
           | (Inr _, s1) \<Rightarrow> (Inr True, s1))"
| "appendEl self (Iterable grandChildren) insertionPoint s =
     (if detachedPoint self insertionPoint s then (Inr False, s)
      else case forEachAppend self grandChildren insertionPoint s of
             (Inl e, s1) \<Rightarrow> (Inl e, s1)
           | (Inr _, s1) \<Rightarrow> (Inr True, s1))"
| "appendEl self Unsupported insertionPoint s =
     (if detachedPoint self insertionPoint s then (Inr False, s) else (Inl TypeError, s))"
| "forEachAppend self [] insertionPoint s = (Inr (), s)"
| "forEachAppend self (grandChild # rest) insertionPoint s =
     (case appendEl self grandChild insertionPoint s of
        (Inl e, s1) \<Rightarrow> (Inl e, s1)
      | (Inr _, s1) \<Rightarrow> forEachAppend self rest insertionPoint s1)"
| "metaObserverRun self observerStartNode observerEndNode result s =
     (if parentNode s observerStartNode = Some self \<and> parentNode s observerEndNode = Some self
      then
        (case getNodesBetween s observerStartNode observerEndNode of
           Inl e \<Rightarrow> (Inl e, s)
         | Inr oldChildren \<Rightarrow>
            (case appendEl self result (Some observerEndNode) (fold removeNode oldChildren s) of
               (Inl e, s1) \<Rightarrow> (Inl e, s1)
             | (Inr _, s1) \<Rightarrow> (Inr (), s1)))
      else (Inr (), s))"

subsection \<open>The callback of a resolved Promise\<close>

text \<open>The function given to \<open>child.then\<close>, run with the value the Promise resolved to.\<close>

definition thenCallback :: "node \<Rightarrow> node \<Rightarrow> child \<Rightarrow> page \<Rightarrow> (error + unit) \<times> page" where
  "thenCallback self promisePlaceholder v s =
     (case appendEl self v (Some promisePlaceholder) s of
        (Inl e, s1) \<Rightarrow> (Inl e, s1)
      | (Inr _, s1) \<Rightarrow> (Inr (), removeNode promisePlaceholder s1))"

subsection \<open>The two MutationObservers\<close>

record mutationRecord =
  addedNodes :: "node list"
  removedNodes :: "node list"

text \<open>\<open>observerTrios.get(comment)?.observer.start()\<close> and its \<open>stop\<close> twin.\<close>

definition startTrio :: "node \<Rightarrow> page \<Rightarrow> page" where
  "startTrio comment s =
     (case observerTriosGet s (NodeKey comment) of
        None \<Rightarrow> s
      | Some trio \<Rightarrow> observerStart (observer trio) s)"

definition stopTrio :: "node \<Rightarrow> page \<Rightarrow> page" where
  "stopTrio comment s =
     (case observerTriosGet s (NodeKey comment) of
        None \<Rightarrow> s
      | Some trio \<Rightarrow> observerStop (observer trio) s)"

definition docObserverRecord :: "mutationRecord \<Rightarrow> page \<Rightarrow> page" where
  "docObserverRecord mutationRecord s =
     (let s1 = fold (\<lambda>addedNode s'. fold startTrio (getAllComments s' addedNode) s')
                 (addedNodes mutationRecord) s
      in fold (\<lambda>removedNode s'. fold stopTrio (getAllComments s' removedNode) s')
           (removedNodes mutationRecord) s1)"

definition docObserver :: "mutationRecord list \<Rightarrow> page \<Rightarrow> page" where
  "docObserver mutationList s = fold docObserverRecord mutationList s"

text \<open>The method \<open>clear\<close> of a trio.\<close>

definition clear :: "observerTrio \<Rightarrow> page \<Rightarrow> page" where
  "clear trio s = observerStop (observer trio) (removeNode (endNode trio) (removeNode (start trio) s))"

definition clearTrio :: "node \<Rightarrow> page \<Rightarrow> page" where
  "clearTrio removedNode s =
     (case observerTriosGet s (NodeKey removedNode) of
        None \<Rightarrow> s
      | Some trio \<Rightarrow> clear trio s)"

definition bookmarkObserver :: "mutationRecord list \<Rightarrow> page \<Rightarrow> page" where
  "bookmarkObserver mutationList s =
     fold (\<lambda>mutationRecord s'. fold clearTrio (removedNodes mutationRecord) s') mutationList s"


section \<open>Vocabulary of the properties\<close>

text \<open>A node that is in no child list at all: it has no parent and no siblings.\<close>

definition gone :: "page \<Rightarrow> node \<Rightarrow> bool" where
  "gone s n = (\<forall>p. n \<notin> set (childNodes s p))"

text \<open>A region that is torn down: both markers out of the tree, the Observer stopped.\<close>

definition tornDown :: "observerTrio \<Rightarrow> page \<Rightarrow> bool" where
  "tornDown t s = (gone s (start t) \<and> gone s (endNode t) \<and> \<not> awake s (observer t))"

text \<open>
  A well-formed page: the children of a node are distinct node objects of the page, a
  node is in the child list of one node only, its parent, and the registry speaks of node
  objects of the page.
\<close>

definition wf :: "page \<Rightarrow> bool" where
  "wf s =
     (list_all
       (\<lambda>p. distinct (childNodes s p) \<and>
            list_all (\<lambda>n. n < nextNode s \<and> parentNode s n = Some p) (childNodes s p))
       [0..<nextNode s]
      \<and> list_all
          (\<lambda>(k, t). start t < nextNode s \<and> endNode t < nextNode s
             \<and> (case k of NodeKey m \<Rightarrow> m < nextNode s | ObserverKey _ \<Rightarrow> True))
          (observerTrios s))"

text \<open>
  The elementary edits that \<open>append\<close>, the re-render rule, the Promise callback and the
  two watchers make on a page whose host element is \<open>self\<close>: a text or comment node is
  created; a node is inserted under \<open>self\<close> (an element, a fragment, or a detached text or
  comment node that is no marker); a child of \<open>self\<close> is removed; a pair of adjacent comment children
  of \<open>self\<close> is registered as the markers of an Observer; or the tree and the registry
  stay as they are.
\<close>

definition insertable :: "page \<Rightarrow> node \<Rightarrow> bool" where
  "insertable s n =
     (instanceofElement s n \<or> instanceofDocumentFragment s n
      \<or> (n < nextNode s \<and> nodeType s n \<noteq> Document \<and> parentNode s n = None
          \<and> childNodes s n = [] \<and> observerTriosGet s (NodeKey n) = None))"

inductive step :: "node \<Rightarrow> page \<Rightarrow> page \<Rightarrow> bool" for self :: node where
  createS: "ty = Text txt \<or> ty = Comment txt \<Longrightarrow> step self s (snd (createNode ty s))"
| insertS: "insertBefore self n ref s = Inr s' \<Longrightarrow> self < nextNode s \<Longrightarrow> insertable s n \<Longrightarrow> step self s s'"
| removeS: "x \<in> set (childNodes s self) \<Longrightarrow> step self s (removeNode x s)"
| registerS:
    "childNodes s self = A @ st # en # B \<Longrightarrow> self < nextNode s
     \<Longrightarrow> isComment s st \<Longrightarrow> isComment s en
     \<Longrightarrow> step self s (registerTrio st en u s)"
| otherS:
    "childNodes s' = childNodes s \<Longrightarrow> nodeType s' = nodeType s \<Longrightarrow> nextNode s' = nextNode s
     \<Longrightarrow> observerTrios s' = observerTrios s \<Longrightarrow> step self s s'"

inductive edits :: "node \<Rightarrow> page \<Rightarrow> page \<Rightarrow> bool" for self :: node where
  edits_refl: "edits self s s"
| edits_step: "edits self s s1 \<Longrightarrow> step self s1 s2 \<Longrightarrow> edits self s s2"

text \<open>
  A node whose chain of ancestors ends, within the bound of the walk, in a node without
  parent. In a tree of the DOM every node is rooted.
\<close>

definition rooted :: "page \<Rightarrow> node \<Rightarrow> bool" where
  "rooted s n = (parentNode s (last (n # ancestors (nextNode s) s n)) = None)"

text \<open>
  The Observer branch of \<open>append\<close> after its two markers are inserted: the trio is
  registered and the meta-observer created. The markers are the two newest nodes.
\<close>

definition bookends :: "node \<Rightarrow> observer \<Rightarrow> page \<Rightarrow> page" where
  "bookends self u s4 =
     (registerTrio (nextNode s4 - 2) (nextNode s4 - 1) u s4)
        \<lparr>metaObservers := metaObservers s4 @
           [\<lparr>metaChild = u, metaSelf = self, metaStart = nextNode s4 - 2, metaEnd = nextNode s4 - 1\<rparr>]\<rparr>"

text \<open>
  The nodes \<open>append\<close> may put under the host element: nodes it creates, elements, and
  the children of document fragments.
\<close>

definition movable :: "page \<Rightarrow> node set" where
  "movable s =
     {x. nextNode s \<le> x \<or> instanceofElement s x
          \<or> (\<exists>f. instanceofDocumentFragment s f \<and> x \<in> set (childNodes s f))}"

text \<open>
  \<open>placed ip N xs xs'\<close>: the child list \<open>xs'\<close> is \<open>xs\<close> with the nodes \<open>N\<close> put, in this
  order, immediately before the insertion point \<open>ip\<close> (at the end when there is none);
  the nodes of \<open>N\<close> that were in \<open>xs\<close> have left their old places, every other node
  keeps its place.
\<close>

definition placed :: "node option \<Rightarrow> node list \<Rightarrow> node list \<Rightarrow> node list \<Rightarrow> bool" where
  "placed ip N xs xs' =
     (case ip of
        None \<Rightarrow> xs' = filter (\<lambda>x. x \<notin> set N) xs @ N
      | Some r \<Rightarrow>
          (\<exists>A B. xs = A @ r # B
             \<and> xs' = filter (\<lambda>x. x \<notin> set N) A @ N @ r # filter (\<lambda>x. x \<notin> set N) B))"

text \<open>An insertion point \<open>append\<close> accepts: none, or a comment node that is a child of
  the host element.\<close>

definition attachedPoint :: "page \<Rightarrow> node \<Rightarrow> node option \<Rightarrow> bool" where
  "attachedPoint s self ip =
     (case ip of None \<Rightarrow> True | Some r \<Rightarrow> parentNode s r = Some self \<and> isComment s r)"

text \<open>
  \<open>placedBy s self ip s'\<close>: from \<open>s\<close> to \<open>s'\<close> the children of the host element changed by
  movable nodes being put immediately before the insertion point.
\<close>

definition placedBy :: "page \<Rightarrow> node \<Rightarrow> node option \<Rightarrow> page \<Rightarrow> bool" where
  "placedBy s self ip s' =
     (\<exists>N. set N \<subseteq> movable s \<and> placed ip N (childNodes s self) (childNodes s' self))"

text \<open>
  A region re-rendered once for each text of a list, in order: the runs of the meta-observer
  of an Observer whose value is, each time, a single text.
\<close>

definition rerenders :: "node \<Rightarrow> node \<Rightarrow> node \<Rightarrow> string list \<Rightarrow> page \<Rightarrow> page" where
  "rerenders self st en ts s = fold (\<lambda>t s'. snd (metaObserverRun self st en (Str t) s')) ts s"

text \<open>
  The pairing of the markers. \<open>follows a b xs\<close>: in the list \<open>xs\<close> the node \<open>b\<close> stands
  after the node \<open>a\<close>. \<open>paired s trio\<close>: the markers of the trio are comment nodes that
  are keys of the registry, a marker that has a parent has an element as parent, and when
  both have a parent it is the same one and the end marker is a later sibling of the
  start marker. \<open>pairing s\<close>: every trio of the registry is paired.
\<close>

definition follows :: "node \<Rightarrow> node \<Rightarrow> node list \<Rightarrow> bool" where
  "follows a b xs = (b \<in> set (tl (dropWhile (\<lambda>x. x \<noteq> a) xs)))"

definition underElement :: "page \<Rightarrow> node \<Rightarrow> bool" where
  "underElement s n = (case parentNode s n of None \<Rightarrow> True | Some p \<Rightarrow> nodeType s p = Element)"

definition paired :: "page \<Rightarrow> observerTrio \<Rightarrow> bool" where
  "paired s trio =
     (isComment s (start trio) \<and> isComment s (endNode trio)
      \<and> observerTriosGet s (NodeKey (start trio)) \<noteq> None
      \<and> observerTriosGet s (NodeKey (endNode trio)) \<noteq> None
      \<and> underElement s (start trio) \<and> underElement s (endNode trio)
      \<and> (case parentNode s (start trio) of
            None \<Rightarrow> True
          | Some p \<Rightarrow>
             (case parentNode s (endNode trio) of
                None \<Rightarrow> True
              | Some q \<Rightarrow> p = q \<and> follows (start trio) (endNode trio) (childNodes s p))))"

definition pairing :: "page \<Rightarrow> bool" where
  "pairing s = list_all (\<lambda>(k, trio). paired s trio) (observerTrios s)"

text \<open>
  The pages the program reaches from a well-formed page with an empty registry: an element
  is created; \<open>append\<close> runs on an element as host, with any child and any insertion point;
  the re-render rule of a meta-observer runs, with any value; the callback of a Promise
  runs, with any resolved value; an element, with its subtree, is detached, or inserted
  under a node of the page that takes it; each of the two watchers runs on any batch of
  records.
\<close>

inductive reachable :: "page \<Rightarrow> bool" where
  start_page: "wf s \<Longrightarrow> observerTrios s = [] \<Longrightarrow> reachable s"
| create_element: "reachable s \<Longrightarrow> reachable (snd (createNode Element s))"
| append_child: "reachable s \<Longrightarrow> instanceofElement s self \<Longrightarrow> reachable (snd (appendEl self c ip s))"
| rerender:
    "reachable s \<Longrightarrow> instanceofElement s self \<Longrightarrow> reachable (snd (metaObserverRun self st en v s))"
| resolve:
    "reachable s \<Longrightarrow> instanceofElement s self \<Longrightarrow> reachable (snd (thenCallback self ph v s))"
| detach: "reachable s \<Longrightarrow> instanceofElement s n \<Longrightarrow> reachable (removeNode n s)"
| attach:
    "reachable s \<Longrightarrow> instanceofElement s n \<Longrightarrow> p < nextNode s
     \<Longrightarrow> insertBefore p n ref s = Inr s' \<Longrightarrow> reachable s'"
| attachment_watcher: "reachable s \<Longrightarrow> reachable (docObserver mutationList s)"
| cleanup_watcher: "reachable s \<Longrightarrow> reachable (bookmarkObserver mutationList s)"

text \<open>Two pages with the same tree and the same registry.\<close>

definition sameTree :: "page \<Rightarrow> page \<Rightarrow> bool" where
  "sameTree s s' = (childNodes s' = childNodes s \<and> nodeType s' = nodeType s
     \<and> nextNode s' = nextNode s \<and> observerTrios s' = observerTrios s)"

text \<open>
  The Observers that have a marker in the subtree of a node, and the Observers a mutation
  record makes \<open>docObserver\<close> start and stop.
\<close>

definition unitsIn :: "page \<Rightarrow> node \<Rightarrow> observer list" where
  "unitsIn s n =
     List.map_filter (\<lambda>comment. map_option observer (observerTriosGet s (NodeKey comment)))
       (getAllComments s n)"

definition startedBy :: "page \<Rightarrow> mutationRecord \<Rightarrow> observer list" where
  "startedBy s r = concat (map (unitsIn s) (addedNodes r))"

definition stoppedBy :: "page \<Rightarrow> mutationRecord \<Rightarrow> observer list" where
  "stoppedBy s r = concat (map (unitsIn s) (removedNodes r))"

subsection \<open>Pages to compute on\<close>

definition emptyPage :: page where
  "emptyPage =
     \<lparr>nodeType = (\<lambda>_. Document), childNodes = (\<lambda>_. []), nextNode = 1,
      observerTrios = [], awake = (\<lambda>_. False), calls = [],
      metaObservers = [], thens = []\<rparr>"

text \<open>The document 0 with the element 1 as its only child, and a detached element 2.\<close>

definition examplePage :: page where
  "examplePage =
     emptyPage\<lparr>nodeType := (\<lambda>_. Element)(0 := Document),
               childNodes := (\<lambda>_. [])(0 := [1]), nextNode := 3\<rparr>"


text \<open>
  \<open>examplePage\<close> after \<open>el(node1, ob)\<close> for an Observer 0 whose value is \<open>'x'\<close>: element 1
  holds the start marker 3, the text node 5 and the end marker 4.
\<close>

definition regionPage :: page where
  "regionPage = snd (appendEl 1 (ObserverRef 0 (Str ''x'')) None examplePage)"


text \<open>
  \<open>examplePage\<close> after \<open>el(node1, promise)\<close> for a pending Promise 0: element 1 holds the
  placeholder 3.
\<close>

definition promisePage :: page where
  "promisePage = snd (appendEl 1 (PromiseRef 0) None examplePage)"

text \<open>\<open>promisePage\<close> after the placeholder 3 is moved under the detached element 2.\<close>

definition movedPlaceholderPage :: page where
  "movedPlaceholderPage =
     (case insertBefore 2 3 None promisePage of Inl _ \<Rightarrow> promisePage | Inr s \<Rightarrow> s)"


text \<open>
  \<open>regionPage\<close> after \<open>append\<close> of a pending Promise 0 before the end marker 4: element 1
  holds the start marker 3, the text node 5, the placeholder 6 and the end marker 4.
\<close>

definition pendingPage :: page where
  "pendingPage = snd (appendEl 1 (PromiseRef 0) (Some 4) regionPage)"

text \<open>
  \<open>examplePage\<close> after \<open>el(node1, ['a', ob, 'b'])\<close> for an Observer 0 whose value is
  \<open>'x'\<close>: element 1 holds the text node 3, the start marker 4, the text node 6, the end
  marker 5 and the text node 7.
\<close>

definition crowdedPage :: page where
  "crowdedPage =
     snd (appendEl 1 (Iterable [Str ''a'', ObserverRef 0 (Str ''x''), Str ''b'']) None examplePage)"

text \<open>
  \<open>crowdedPage\<close> after element 1 is detached from the document and attached to it again.
\<close>

definition reattachedPage :: page where
  "reattachedPage =
     (case insertBefore document 1 None (removeNode 1 crowdedPage) of
        Inl _ \<Rightarrow> crowdedPage
      | Inr s \<Rightarrow> s)"

section \<open>Verified properties\<close>

subsection \<open>Nodes out of the tree\<close>

lemma gone_parentNode: "gone s n \<Longrightarrow> parentNode s n = None"
  by (simp add: gone_def parentNode_def find_None_iff)

lemma gone_removeNode_same [simp]: "gone (removeNode n s) n"
  by (simp add: gone_def removeNode_def)

lemma gone_removeNode: "gone s n \<Longrightarrow> gone (removeNode m s) n"
  by (simp add: gone_def removeNode_def)

lemma removeNode_gone_id: "gone s n \<Longrightarrow> removeNode n s = s"
  by (simp add: removeNode_def gone_def)

lemma parentNode_removeNode_same [simp]: "parentNode (removeNode n s) n = None"
  by (simp add: gone_parentNode)

lemma parentNode_removeNode_None: "parentNode s n = None \<Longrightarrow> parentNode (removeNode m s) n = None"
  by (auto simp add: parentNode_def removeNode_def find_None_iff)

lemma gone_observerStop [simp]: "gone (observerStop u s) n = gone s n"
  by (simp add: gone_def observerStop_def)

lemma parentNode_observerStop [simp]: "parentNode (observerStop u s) n = parentNode s n"
  by (simp add: parentNode_def observerStop_def)

lemma awake_removeNode [simp]: "awake (removeNode n s) = awake s"
  by (simp add: removeNode_def)

subsection \<open>Well-formed pages and the elementary edits\<close>

lemma wf_iff:
  "wf s =
     ((\<forall>p<nextNode s. distinct (childNodes s p) \<and>
          (\<forall>n\<in>set (childNodes s p). n < nextNode s \<and> parentNode s n = Some p))
      \<and> (\<forall>(k, t)\<in>set (observerTrios s). start t < nextNode s \<and> endNode t < nextNode s
             \<and> (\<forall>m. k = NodeKey m \<longrightarrow> m < nextNode s)))"
  by (auto simp add: wf_def list_all_iff split: key.splits)

lemma observerTriosGet_cong:
  "observerTrios s' = observerTrios s \<Longrightarrow> observerTriosGet s' k = observerTriosGet s k"
  by (simp add: observerTriosGet_def)

lemma parentNode_SomeD: "parentNode s n = Some p \<Longrightarrow> p < nextNode s \<and> n \<in> set (childNodes s p)"
  by (auto simp add: parentNode_def find_Some_iff)

lemma wf_parentNode: "wf s \<Longrightarrow> p < nextNode s \<Longrightarrow> n \<in> set (childNodes s p) \<Longrightarrow> parentNode s n = Some p"
  by (simp add: wf_iff)

lemma wf_child_less: "wf s \<Longrightarrow> p < nextNode s \<Longrightarrow> n \<in> set (childNodes s p) \<Longrightarrow> n < nextNode s"
  by (simp add: wf_iff)

lemma wf_distinct: "wf s \<Longrightarrow> p < nextNode s \<Longrightarrow> distinct (childNodes s p)"
  by (simp add: wf_iff)

lemma parentNode_cong:
  "nextNode s' = nextNode s \<Longrightarrow> (\<And>p. p < nextNode s \<Longrightarrow> (n \<in> set (childNodes s' p)) = (n \<in> set (childNodes s p)))
   \<Longrightarrow> parentNode s' n = parentNode s n"
  unfolding parentNode_def by (rule find_cong) auto

lemma parentNode_unique:
  assumes "p < nextNode s" and "x \<in> set (childNodes s p)"
    and "\<And>q. q < nextNode s \<Longrightarrow> x \<in> set (childNodes s q) \<Longrightarrow> q = p"
  shows "parentNode s x = Some p"
proof (cases "parentNode s x")
  case None
  with assms(1,2) show ?thesis
    by (auto simp add: parentNode_def find_None_iff)
next
  case (Some q)
  then have "q < nextNode s \<and> x \<in> set (childNodes s q)" by (rule parentNode_SomeD)
  with assms(3) Some show ?thesis by auto
qed

lemma nextNode_createNode [simp]: "nextNode (snd (createNode ty s)) = Suc (nextNode s)"
  by (simp add: createNode_def)

lemma fst_createNode [simp]: "fst (createNode ty s) = nextNode s"
  by (simp add: createNode_def)

lemma childNodes_createNode [simp]: "childNodes (snd (createNode ty s)) = (childNodes s)(nextNode s := [])"
  by (simp add: createNode_def)

lemma nodeType_createNode [simp]: "nodeType (snd (createNode ty s)) = (nodeType s)(nextNode s := ty)"
  by (simp add: createNode_def)

lemma observerTrios_createNode [simp]: "observerTrios (snd (createNode ty s)) = observerTrios s"
  by (simp add: createNode_def)

lemma find_snoc_False: "\<not> P y \<Longrightarrow> find P (xs @ [y]) = find P xs"
  by (induction xs) auto

lemma parentNode_createNode [simp]: "parentNode (snd (createNode ty s)) m = parentNode s m"
proof -
  have "find (\<lambda>p. m \<in> set (((childNodes s)(nextNode s := [])) p)) [0..<nextNode s]
      = find (\<lambda>p. m \<in> set (childNodes s p)) [0..<nextNode s]"
    by (rule find_cong) auto
  moreover have "find (\<lambda>p. m \<in> set (((childNodes s)(nextNode s := [])) p)) ([0..<nextNode s] @ [nextNode s])
      = find (\<lambda>p. m \<in> set (((childNodes s)(nextNode s := [])) p)) [0..<nextNode s]"
    by (rule find_snoc_False) simp
  ultimately show ?thesis
    by (simp add: parentNode_def)
qed

lemma wf_createNode: "wf s \<Longrightarrow> wf (snd (createNode ty s))"
  unfolding wf_iff by (fastforce simp add: less_Suc_eq)

lemma nextNode_removeNode [simp]: "nextNode (removeNode x s) = nextNode s"
  by (simp add: removeNode_def)

lemma childNodes_removeNode [simp]: "childNodes (removeNode x s) p = removeAll x (childNodes s p)"
  by (simp add: removeNode_def)

lemma parentNode_removeNode_other: "m \<noteq> x \<Longrightarrow> parentNode (removeNode x s) m = parentNode s m"
  by (rule parentNode_cong) auto

lemma observerTrios_removeNode [simp]: "observerTrios (removeNode x s) = observerTrios s"
  by (simp add: removeNode_def)

lemma wf_removeNode: "wf s \<Longrightarrow> wf (removeNode x s)"
  unfolding wf_iff by (auto simp add: distinct_removeAll parentNode_removeNode_other)

lemma fold_removeNode: "fold removeNode ns s = s\<lparr>childNodes := \<lambda>p. filter (\<lambda>x. x \<notin> set ns) (childNodes s p)\<rparr>"
proof (induction ns arbitrary: s)
  case Nil
  then show ?case by simp
next
  case (Cons a ns)
  have "filter (\<lambda>x. x \<notin> set ns) (removeAll a xs) = filter (\<lambda>x. x \<noteq> a \<and> x \<notin> set ns) xs" for xs
    by (induction xs) auto
  with Cons show ?case by (simp add: removeNode_def)
qed

lemma set_insertAt [simp]: "set (insertAt new r xs) = set new \<union> set xs"
  by (induction new r xs rule: insertAt.induct) auto

lemma distinct_insertAt: "distinct new \<Longrightarrow> distinct xs \<Longrightarrow> set new \<inter> set xs = {} \<Longrightarrow> distinct (insertAt new r xs)"
  by (induction new r xs rule: insertAt.induct) auto

lemma insertBefore_Inr:
  assumes "insertBefore p n ref s = Inr s'"
  shows "\<not> contains s n p"
    and "nextNode s' = nextNode s" and "nodeType s' = nodeType s" and "observerTrios s' = observerTrios s"
    and "awake s' = awake s" and "calls s' = calls s" and "metaObservers s' = metaObservers s" and "thens s' = thens s"
    and "q \<noteq> p \<Longrightarrow> childNodes s' q = filter (\<lambda>x. x \<notin> set (movedNodes s n)) (childNodes s q)"
    and "\<exists>r'. childNodes s' p = insertAt (movedNodes s n) r' (filter (\<lambda>x. x \<notin> set (movedNodes s n)) (childNodes s p))"
  using assms by (auto simp add: insertBefore_def fold_removeNode Let_def split: if_splits)

subsection \<open>The elementary edits keep a page well formed\<close>

lemma insertable_less: "insertable s n \<Longrightarrow> n < nextNode s"
  by (auto simp add: insertable_def instanceofElement_def instanceofDocumentFragment_def)

lemma movedNodes_less: "wf s \<Longrightarrow> n < nextNode s \<Longrightarrow> x \<in> set (movedNodes s n) \<Longrightarrow> x < nextNode s"
  by (auto simp add: movedNodes_def wf_child_less split: if_splits)

lemma movedNodes_distinct: "wf s \<Longrightarrow> n < nextNode s \<Longrightarrow> distinct (movedNodes s n)"
  by (auto simp add: movedNodes_def wf_distinct)

lemma contains_refl [simp]: "contains s n n"
  by (simp add: contains_def)

lemma wf_insertBefore:
  assumes wf: "wf s" and ins: "insertBefore p n ref s = Inr s'" and p: "p < nextNode s" and n: "n < nextNode s"
  shows "wf s'"
proof -
  let ?M = "set (movedNodes s n)"
  note I = insertBefore_Inr [OF ins]
  from I(1) have pn: "p \<noteq> n" by auto
  obtain r' where cp: "childNodes s' p = insertAt (movedNodes s n) r' (filter (\<lambda>x. x \<notin> ?M) (childNodes s p))"
    using I(10) by blast
  have co: "\<And>q. q \<noteq> p \<Longrightarrow> childNodes s' q = filter (\<lambda>x. x \<notin> ?M) (childNodes s q)"
    using I(9) by blast
  have mem: "\<And>q x. x \<notin> ?M \<Longrightarrow> (x \<in> set (childNodes s' q)) = (x \<in> set (childNodes s q))"
    using cp co by (case_tac "q = p") auto
  have memM: "\<And>q x. x \<in> ?M \<Longrightarrow> (x \<in> set (childNodes s' q)) = (q = p)"
    using cp co by (case_tac "q = p") auto
  have reg: "\<forall>(k, t)\<in>set (observerTrios s'). start t < nextNode s' \<and> endNode t < nextNode s'
             \<and> (\<forall>m. k = NodeKey m \<longrightarrow> m < nextNode s')"
    using wf I(2) I(4) by (simp add: wf_iff)
  have "\<forall>p<nextNode s'. distinct (childNodes s' p) \<and>
          (\<forall>n\<in>set (childNodes s' p). n < nextNode s' \<and> parentNode s' n = Some p)"
  proof (intro allI impI conjI ballI)
    fix q assume "q < nextNode s'"
    then have q: "q < nextNode s" using I(2) by simp
    show "distinct (childNodes s' q)"
    proof (cases "q = p")
      case True
      then show ?thesis using cp wf p n
        by (auto intro!: distinct_insertAt simp add: movedNodes_distinct wf_distinct)
    next
      case False
      then show ?thesis using co wf q by (simp add: wf_distinct)
    qed
  next
    fix q x assume "q < nextNode s'" and x: "x \<in> set (childNodes s' q)"
    then have q: "q < nextNode s" using I(2) by simp
    show "x < nextNode s'"
    proof (cases "x \<in> ?M")
      case True
      then show ?thesis using wf n I(2) by (simp add: movedNodes_less)
    next
      case False
      with x have "x \<in> set (childNodes s q)" using mem by simp
      then show ?thesis using wf q I(2) by (simp add: wf_child_less)
    qed
  next
    fix q x assume "q < nextNode s'" and x: "x \<in> set (childNodes s' q)"
    then have q: "q < nextNode s" using I(2) by simp
    show "parentNode s' x = Some q"
    proof (cases "x \<in> ?M")
      case True
      with x have "q = p" using memM by simp
      moreover have "parentNode s' x = Some p"
      proof (rule parentNode_unique)
        show "p < nextNode s'" using p I(2) by simp
        show "x \<in> set (childNodes s' p)" using True memM by simp
        show "\<And>q. q < nextNode s' \<Longrightarrow> x \<in> set (childNodes s' q) \<Longrightarrow> q = p"
          using True memM by simp
      qed
      ultimately show ?thesis by simp
    next
      case False
      with x have "x \<in> set (childNodes s q)" using mem by simp
      then have "parentNode s x = Some q" using wf q by (simp add: wf_parentNode)
      moreover have "parentNode s' x = parentNode s x"
        using I(2) False mem by (intro parentNode_cong) auto
      ultimately show ?thesis by simp
    qed
  qed
  with reg show ?thesis by (simp add: wf_iff)
qed

lemma wf_registerTrio: "wf s \<Longrightarrow> st < nextNode s \<Longrightarrow> en < nextNode s \<Longrightarrow> wf (registerTrio st en u s)"
  by (auto simp add: wf_iff registerTrio_def parentNode_def Let_def)

lemma wf_step: "step self s s' \<Longrightarrow> wf s \<Longrightarrow> wf s'"
proof (induction rule: step.induct)
  case (createS ty tx s)
  then show ?case by (simp add: wf_createNode)
next
  case (insertS n ref s s')
  then show ?case by (auto intro: wf_insertBefore simp add: insertable_less)
next
  case (removeS x s)
  then show ?case by (simp add: wf_removeNode)
next
  case (registerS s A st en B u)
  then have "st < nextNode s" "en < nextNode s"
    by (auto intro: wf_child_less [of s self])
  with registerS show ?case by (simp add: wf_registerTrio)
next
  case (otherS s' s)
  then show ?case by (simp add: wf_iff parentNode_def)
qed

lemma wf_edits: "edits self s s' \<Longrightarrow> wf s \<Longrightarrow> wf s'"
  by (induction rule: edits.induct) (auto intro: wf_step)

lemma edits_trans: "edits self s1 s2 \<Longrightarrow> edits self s0 s1 \<Longrightarrow> edits self s0 s2"
  by (induction rule: edits.induct) (auto intro: edits.intros)

lemma edits_one: "step self s s' \<Longrightarrow> edits self s s'"
  by (blast intro: edits.intros)

subsection \<open>append is a sequence of elementary edits\<close>

lemma step_nextNode: "step self s s' \<Longrightarrow> nextNode s \<le> nextNode s'"
  by (induction rule: step.induct) (auto simp add: insertBefore_Inr registerTrio_def Let_def)

lemma step_nodeType: "step self s s' \<Longrightarrow> x < nextNode s \<Longrightarrow> nodeType s' x = nodeType s x"
  by (induction rule: step.induct) (auto simp add: insertBefore_Inr registerTrio_def removeNode_def Let_def)

lemma edits_nextNode: "edits self s s' \<Longrightarrow> nextNode s \<le> nextNode s'"
  by (induction rule: edits.induct) (auto dest: step_nextNode)

lemma edits_nodeType: "edits self s s' \<Longrightarrow> x < nextNode s \<Longrightarrow> nodeType s' x = nodeType s x"
proof (induction rule: edits.induct)
  case (edits_refl s)
  then show ?case by simp
next
  case (edits_step s s1 s2)
  then have "x < nextNode s1" using edits_nextNode [of self s s1] by simp
  with edits_step show ?case by (simp add: step_nodeType)
qed

lemma edits_instanceofElement: "edits self s s' \<Longrightarrow> instanceofElement s x \<Longrightarrow> instanceofElement s' x"
  using edits_nextNode [of self s s'] edits_nodeType [of self s s' x]
  by (auto simp add: instanceofElement_def)

lemma wf_fresh_parentNode: "wf s \<Longrightarrow> nextNode s \<le> k \<Longrightarrow> parentNode s k = None"
  by (auto simp add: parentNode_def find_None_iff dest: wf_child_less)

lemma wf_fresh_observerTriosGet: "wf s \<Longrightarrow> nextNode s \<le> k \<Longrightarrow> observerTriosGet s (NodeKey k) = None"
  by (fastforce simp add: observerTriosGet_def map_of_eq_None_iff wf_iff)

lemma fresh_insertable:
  "wf s \<Longrightarrow> ty = Text tx \<or> ty = Comment tx \<Longrightarrow> insertable (snd (createNode ty s)) (nextNode s)"
  by (auto simp add: insertable_def wf_fresh_parentNode
      observerTriosGet_cong [of "snd (createNode ty s)" s] wf_fresh_observerTriosGet)

lemma parentNode_insertBefore_other:
  assumes "insertBefore p n ref s = Inr s'" and "x \<notin> set (movedNodes s n)"
  shows "parentNode s' x = parentNode s x"
proof (rule parentNode_cong)
  show "nextNode s' = nextNode s" using assms(1) by (simp add: insertBefore_Inr)
  fix q
  show "(x \<in> set (childNodes s' q)) = (x \<in> set (childNodes s q))"
    using insertBefore_Inr(9,10) [OF assms(1)] assms(2)
    by (cases "q = p") auto
qed

lemma edits_fold_removeNode:
  "distinct xs \<Longrightarrow> set xs \<subseteq> set (childNodes s self) \<Longrightarrow> edits self s (fold removeNode xs s)"
proof (induction xs arbitrary: s)
  case Nil
  then show ?case by (simp add: edits.intros)
next
  case (Cons x xs)
  then have 1: "edits self s (removeNode x s)"
    by (auto intro!: edits_one step.removeS)
  from Cons.prems have "set xs \<subseteq> set (childNodes (removeNode x s) self)"
    by auto
  with Cons have "edits self (removeNode x s) (fold removeNode xs (removeNode x s))"
    by simp
  then show ?case using 1 by (simp add: edits_trans)
qed

lemma collectUntil_Inr:
  "collectUntil e acc xs = Inr r \<Longrightarrow> \<exists>old B. xs = old @ e # B \<and> r = acc @ old \<and> e \<notin> set old"
proof (induction e acc xs rule: collectUntil.induct)
  case (1 e result)
  then show ?case by simp
next
  case (2 e result currentNode rest)
  show ?case
  proof (cases "currentNode = e")
    case True
    with 2 show ?thesis by auto
  next
    case False
    with 2 obtain old B where "rest = old @ e # B" "r = (result @ [currentNode]) @ old" "e \<notin> set old"
      by auto
    with False have "currentNode # rest = (currentNode # old) @ e # B \<and> r = result @ (currentNode # old)
        \<and> e \<notin> set (currentNode # old)"
      by simp
    then show ?thesis by blast
  qed
qed

lemma getNodesBetween_Inr:
  assumes "getNodesBetween s st en = Inr old" and "parentNode s st = Some self"
  shows "\<exists>A B. childNodes s self = A @ st # old @ en # B \<and> st \<notin> set A \<and> en \<notin> set old"
proof -
  from assms(2) have "st \<in> set (childNodes s self)" by (simp add: parentNode_SomeD)
  then obtain A R where AR: "childNodes s self = A @ st # R" "st \<notin> set A"
    by (auto dest: split_list_first)
  then have "dropWhile (\<lambda>x. x \<noteq> st) (childNodes s self) = st # R"
    by (auto simp add: dropWhile_append3)
  with assms(2) have "nextSiblings s st = R" by (simp add: nextSiblings_def)
  with assms(1) have "collectUntil en [] R = Inr old"
    by (simp add: getNodesBetween_def split: if_splits)
  then obtain B where "R = old @ en # B" "en \<notin> set old"
    by (auto dest: collectUntil_Inr)
  with AR show ?thesis by auto
qed

lemma step_kickoff: "step self s (kickoff self u s)"
  by (rule step.otherS)
    (simp_all add: kickoff_def observerStart_def observerStop_def setArgsContext_def setThisContext_def Let_def)

lemma insertAt_twice:
  "ref \<noteq> Some st \<Longrightarrow> st \<noteq> en \<Longrightarrow> \<exists>A B. insertAt [en] ref (insertAt [st] ref X) = A @ st # en # B"
proof (induction "[st]" ref X rule: insertAt.induct)
  case (1 xs)
  have "insertAt [en] None (insertAt [st] None xs) = xs @ st # en # []" by simp
  then show ?case by blast
next
  case (2 r)
  then show ?case by auto
next
  case (3 r x xs)
  show ?case
  proof (cases "x = r")
    case True
    with 3 have "insertAt [en] (Some r) (insertAt [st] (Some r) (x # xs)) = [] @ st # en # x # xs"
      by simp
    then show ?thesis by blast
  next
    case False
    with 3 obtain A B where "insertAt [en] (Some r) (insertAt [st] (Some r) xs) = A @ st # en # B"
      by auto
    with False have "insertAt [en] (Some r) (insertAt [st] (Some r) (x # xs)) = (x # A) @ st # en # B"
      by simp
    then show ?thesis by blast
  qed
qed

lemma childNodes_insertBefore_fresh:
  assumes "insertBefore self k ref s = Inr s'" and "parentNode s k = None" and "self < nextNode s"
    and "nodeType s k \<noteq> DocumentFragment"
  shows "childNodes s' self = insertAt [k] ref (childNodes s self)"
proof -
  from assms(2,3) have k: "k \<notin> set (childNodes s self)"
    by (auto simp add: parentNode_def find_None_iff)
  then have f: "removeAll k (childNodes s self) = childNodes s self"
    by simp
  from assms(1) k have "ref \<noteq> Some k"
    by (auto simp add: insertBefore_def split: if_splits)
  with assms(1,4) f show ?thesis
    by (auto simp add: insertBefore_def movedNodes_def Let_def split: if_splits)
qed


lemma create_insert_edits:
  assumes "wf s" and "self < nextNode s" and "ty = Text tx \<or> ty = Comment tx"
  shows "edits self s (snd (createNode ty s))"
    and "insertBefore self (nextNode s) ip (snd (createNode ty s)) = Inr s2 \<Longrightarrow> edits self s s2"
proof -
  show c: "edits self s (snd (createNode ty s))"
    using assms(3) by (auto intro!: edits_one step.createS)
  assume i: "insertBefore self (nextNode s) ip (snd (createNode ty s)) = Inr s2"
  have "step self (snd (createNode ty s)) s2"
    using i assms by (auto intro!: step.insertS fresh_insertable)
  with c show "edits self s s2" by (rule edits.edits_step)
qed

lemma bookends_edits:
  assumes wf: "wf s" and self: "self < nextNode s"
    and s1: "s1 = snd (createComment b s)" and s2: "s2 = snd (createComment e s1)"
    and i3: "insertBefore self (nextNode s) ip s2 = Inr s3"
    and i4: "insertBefore self (Suc (nextNode s)) ip s3 = Inr s4"
  shows "edits self s
           ((registerTrio (nextNode s) (Suc (nextNode s)) u s4)
              \<lparr>metaObservers := ms\<rparr>)"
proof -
  let ?st = "nextNode s" and ?en = "Suc (nextNode s)"
  have e1: "edits self s s1" using s1
    by (auto intro!: edits_one step.createS simp add: createComment_def)
  have wf1: "wf s1" using wf s1 by (simp add: createComment_def wf_createNode)
  have n1: "nextNode s1 = Suc (nextNode s)" using s1 by (simp add: createComment_def)
  have e2: "edits self s s2" using e1 s2
    by (auto intro!: edits.edits_step [OF e1] step.createS simp add: createComment_def)
  have wf2: "wf s2" using wf1 s2 by (simp add: createComment_def wf_createNode)
  have n2: "nextNode s2 = Suc (Suc (nextNode s))" using s2 n1 by (simp add: createComment_def)
  have ty2: "nodeType s2 ?st = Comment b" "nodeType s2 ?en = Comment e"
    using s1 s2 n1 by (simp_all add: createComment_def)
  have c2: "childNodes s2 ?st = []" "childNodes s2 ?en = []"
    using s1 s2 n1 by (simp_all add: createComment_def)
  have p2: "parentNode s2 ?st = None" "parentNode s2 ?en = None"
    using s1 s2 wf by (simp_all add: createComment_def wf_fresh_parentNode)
  have g2: "observerTriosGet s2 (NodeKey ?st) = None" "observerTriosGet s2 (NodeKey ?en) = None"
    using s1 s2 wf wf_fresh_observerTriosGet [of s]
    by (simp_all add: createComment_def observerTriosGet_def)
  have st_ins: "insertable s2 ?st"
    using n2 ty2 c2 p2 g2 by (simp add: insertable_def)
  have e3: "edits self s s3"
    using e2 i3 self n2 st_ins by (auto intro!: edits.edits_step [OF e2] step.insertS)
  have wf3: "wf s3" using wf e3 by (rule wf_edits [rotated])
  note I3 = insertBefore_Inr [OF i3]
  have m3: "movedNodes s2 ?st = [?st]" using ty2 by (simp add: movedNodes_def)
  have en_ins: "insertable s3 ?en"
  proof -
    have "parentNode s3 ?en = None"
      using parentNode_insertBefore_other [OF i3, of ?en] m3 p2 by simp
    moreover have "childNodes s3 ?en = []"
      using I3(9) [of ?en] self c2 by simp
    moreover have "observerTriosGet s3 (NodeKey ?en) = None"
      using g2 I3(4) by (simp add: observerTriosGet_def)
    ultimately show ?thesis
      using I3(2) I3(3) n2 ty2 by (simp add: insertable_def)
  qed
  have e4: "edits self s s4"
    using i4 self n2 I3(2) en_ins by (auto intro!: edits.edits_step [OF e3] step.insertS)
  note I4 = insertBefore_Inr [OF i4]
  have ch3: "childNodes s3 self = insertAt [?st] ip (childNodes s2 self)"
    using i3 p2 self n2 ty2 by (intro childNodes_insertBefore_fresh) auto
  have p3: "parentNode s3 ?en = None"
    using parentNode_insertBefore_other [OF i3, of ?en] m3 p2 by simp
  have ch4: "childNodes s4 self = insertAt [?en] ip (insertAt [?st] ip (childNodes s2 self))"
    using childNodes_insertBefore_fresh [OF i4 p3] self n2 I3(2) I3(3) ty2 ch3 by simp
  have "ip \<noteq> Some ?st"
  proof
    assume "ip = Some ?st"
    with i3 have "?st \<in> set (childNodes s2 self)"
      by (auto simp add: insertBefore_def split: if_splits)
    with p2 self n2 show False
      by (auto simp add: parentNode_def find_None_iff)
  qed
  then obtain A B where AB: "childNodes s4 self = A @ ?st # ?en # B"
    using insertAt_twice [of ip ?st ?en "childNodes s2 self"] ch4 by auto
  have "isComment s4 ?st" "isComment s4 ?en"
    using I4(3) I3(3) ty2 by (simp_all add: isComment_def)
  with AB have "step self s4 (registerTrio ?st ?en u s4)"
    using self n2 I3(2) I4(2) by (intro step.registerS) auto
  with e4 have e5: "edits self s (registerTrio ?st ?en u s4)"
    by (rule edits.edits_step)
  have "step self (registerTrio ?st ?en u s4) ((registerTrio ?st ?en u s4)\<lparr>metaObservers := ms\<rparr>)"
    by (rule step.otherS) simp_all
  with e5 show ?thesis by (rule edits.edits_step)
qed


lemma instanceofElement_less: "instanceofElement s x \<Longrightarrow> x < nextNode s"
  by (simp add: instanceofElement_def)

lemma appendEl_edits_aux:
  "wf s \<longrightarrow> instanceofElement s self \<longrightarrow> edits self s (snd (appendEl self c ip s))"
  "wf s \<longrightarrow> instanceofElement s self \<longrightarrow> edits self s (snd (forEachAppend self cs ip s))"
  "wf s \<longrightarrow> instanceofElement s self \<longrightarrow> edits self s (snd (metaObserverRun self st en v s))"
proof (induction self c ip s and self cs ip s and self st en v s
    rule: appendEl_forEachAppend_metaObserverRun.induct)
  case (1 self insertionPoint s)
  then show ?case by (simp add: edits.edits_refl)
next
  case (2 self insertionPoint s)
  then show ?case by (simp add: edits.edits_refl)
next
  case (3 self tx insertionPoint s)
  show ?case
    using create_insert_edits [of s self "Text tx" tx]
    by (auto simp add: createTextNode_def split_beta edits.edits_refl instanceofElement_less
        split: sum.splits)
next
  case (4 self n insertionPoint s)
  show ?case
    by (auto simp add: edits.edits_refl insertable_def instanceofElement_less
        intro!: edits_one step.insertS split: sum.splits)
next
  case (5 self p insertionPoint s)
  show ?case
  proof (intro impI)
    assume wf: "wf s" and el: "instanceofElement s self"
    show "edits self s (snd (appendEl self (PromiseRef p) insertionPoint s))"
    proof (cases "detachedPoint self insertionPoint s")
      case True
      then show ?thesis by (simp add: edits.edits_refl)
    next
      case False
      let ?s1 = "snd (createNode (Comment ''promisePlaceholder'') s)"
      note ci = create_insert_edits [OF wf instanceofElement_less [OF el], of "Comment ''promisePlaceholder''" "''promisePlaceholder''"]
      show ?thesis
      proof (cases "insertBefore self (nextNode s) insertionPoint ?s1")
        case (Inl e)
        with False ci(1) show ?thesis
          by (simp add: createComment_def split_beta)
      next
        case (Inr s2)
        then have "edits self s s2" using ci(2) by simp
        moreover have "step self s2 (s2\<lparr>thens := thens s2 @ [(p, self, nextNode s)]\<rparr>)"
          by (rule step.otherS) simp_all
        ultimately have "edits self s (s2\<lparr>thens := thens s2 @ [(p, self, nextNode s)]\<rparr>)"
          by (rule edits.edits_step)
        with False Inr show ?thesis
          by (simp add: createComment_def split_beta)
      qed
    qed
  qed
next
  case (6 self u v insertionPoint s)
  show ?case
  proof (intro impI)
    assume wf: "wf s" and el: "instanceofElement s self"
    show "edits self s (snd (appendEl self (ObserverRef u v) insertionPoint s))"
    proof (cases "detachedPoint self insertionPoint s")
      case True
      then show ?thesis by (simp add: edits.edits_refl)
    next
      case False
      obtain s1 where s1: "s1 = snd (createComment ''observerStart'' s)" by simp
      obtain s2 where s2: "s2 = snd (createComment ''observerEnd'' s1)" by simp
      have f1: "createComment ''observerStart'' s = (nextNode s, s1)"
        using s1 by (simp add: createComment_def createNode_def)
      have f2: "createComment ''observerEnd'' s1 = (Suc (nextNode s), s2)"
        using s1 s2 by (simp add: createComment_def createNode_def)
      have "step self s s1" "step self s1 s2"
        using s1 s2 by (auto intro!: step.createS simp add: createComment_def)
      then have e2: "edits self s s2"
        by (blast intro: edits.intros)
      show ?thesis
      proof (cases "insertBefore self (nextNode s) insertionPoint s2")
        case (Inl e)
        with False f1 f2 e2 show ?thesis by simp
      next
        case i3: (Inr s3)
        have e3: "edits self s s3"
        proof -
          have "wf s1" using wf s1 by (simp add: createComment_def wf_createNode)
          then have "insertable s2 (nextNode s)"
            using s1 s2 wf wf_fresh_observerTriosGet [of s "nextNode s"]
            by (simp add: insertable_def createComment_def wf_fresh_parentNode observerTriosGet_def)
          then have "step self s2 s3"
            using i3 el s1 s2
            by (auto intro!: step.insertS simp add: createComment_def instanceofElement_def)
          with e2 show ?thesis by (rule edits.edits_step)
        qed
        show ?thesis
        proof (cases "insertBefore self (Suc (nextNode s)) insertionPoint s3")
          case (Inl e)
          with False f1 f2 i3 e3 show ?thesis by simp
        next
          case i4: (Inr s4)
          let ?s6 = "(registerTrio (nextNode s) (Suc (nextNode s)) u s4)
              \<lparr>metaObservers := metaObservers (registerTrio (nextNode s) (Suc (nextNode s)) u s4) @
                 [\<lparr>metaChild = u, metaSelf = self, metaStart = nextNode s, metaEnd = Suc (nextNode s)\<rparr>]\<rparr>"
          have e6: "edits self s ?s6"
            using wf instanceofElement_less [OF el] s1 s2 i3 i4 by (rule bookends_edits)
          have wf6: "wf ?s6" using e6 wf by (rule wf_edits)
          have el6: "instanceofElement ?s6 self" using e6 el by (rule edits_instanceofElement)
          have "edits self ?s6 (snd (metaObserverRun self (nextNode s) (Suc (nextNode s)) v ?s6))"
            using 6 [OF False f1 [symmetric] refl f2 [symmetric] refl i3 i4 refl refl] wf6 el6
            by simp
          then have e7: "edits self s (snd (metaObserverRun self (nextNode s) (Suc (nextNode s)) v ?s6))"
            using e6 by (rule edits_trans)
          show ?thesis
          proof (cases "metaObserverRun self (nextNode s) (Suc (nextNode s)) v ?s6")
            case (Pair r s7)
            with e7 have e7': "edits self s s7" by simp
            have "edits self s (kickoff self u s7)"
              using e7' step_kickoff by (rule edits.edits_step)
            with False f1 f2 i3 i4 Pair e7' show ?thesis
              by (cases r) (simp_all add: Let_def)
          qed
        qed
      qed
    qed
  qed
next
  case (7 self result insertionPoint s)
  then show ?case
    by (auto simp add: edits.edits_refl split: prod.splits sum.splits)
next
  case (8 self grandChildren insertionPoint s)
  then show ?case
    by (auto simp add: edits.edits_refl split: prod.splits sum.splits)
next
  case (9 self insertionPoint s)
  then show ?case by (simp add: edits.edits_refl)
next
  case (10 self insertionPoint s)
  then show ?case by (simp add: edits.edits_refl)
next
  case (11 self grandChild rest insertionPoint s)
  show ?case
  proof (intro impI)
    assume wf: "wf s" and el: "instanceofElement s self"
    obtain r s1 where a: "appendEl self grandChild insertionPoint s = (r, s1)" by force
    have e1: "edits self s s1" using 11(1) wf el a by simp
    show "edits self s (snd (forEachAppend self (grandChild # rest) insertionPoint s))"
    proof (cases r)
      case (Inl e)
      with a e1 show ?thesis by simp
    next
      case (Inr b)
      have "edits self s1 (snd (forEachAppend self rest insertionPoint s1))"
        using 11(2) [OF a [symmetric] Inr] wf_edits [OF e1 wf] edits_instanceofElement [OF e1 el]
        by simp
      then have "edits self s (snd (forEachAppend self rest insertionPoint s1))"
        using e1 by (rule edits_trans)
      with a Inr show ?thesis by simp
    qed
  qed
next
  case (12 self observerStartNode observerEndNode result s)
  show ?case
  proof (intro impI)
    assume wf: "wf s" and el: "instanceofElement s self"
    show "edits self s (snd (metaObserverRun self observerStartNode observerEndNode result s))"
    proof (cases "parentNode s observerStartNode = Some self \<and> parentNode s observerEndNode = Some self")
      case False
      then show ?thesis by (auto simp add: edits.edits_refl)
    next
      case True
      show ?thesis
      proof (cases "getNodesBetween s observerStartNode observerEndNode")
        case (Inl e)
        with True show ?thesis by (simp add: edits.edits_refl)
      next
        case (Inr old)
        let ?s1 = "fold removeNode old s"
        obtain A B where "childNodes s self = A @ observerStartNode # old @ observerEndNode # B"
          using getNodesBetween_Inr [OF Inr] True by blast
        moreover have "distinct (childNodes s self)"
          using wf el by (simp add: wf_distinct instanceofElement_less)
        ultimately have "distinct old" "set old \<subseteq> set (childNodes s self)"
          by auto
        then have e1: "edits self s ?s1" by (rule edits_fold_removeNode)
        have "edits self ?s1 (snd (appendEl self result (Some observerEndNode) ?s1))"
          using 12 [OF True Inr] wf_edits [OF e1 wf] edits_instanceofElement [OF e1 el] by simp
        then have "edits self s (snd (appendEl self result (Some observerEndNode) ?s1))"
          using e1 by (rule edits_trans)
        with True Inr show ?thesis
          by (auto split: prod.splits sum.splits)
      qed
    qed
  qed
qed

subsection \<open>Teardown\<close>

lemma gone_clear: "gone s n \<Longrightarrow> gone (clear t s) n"
  by (simp add: clear_def gone_removeNode)

lemma clear_gone_start: "gone (clear t s) (start t)"
  by (simp add: clear_def gone_removeNode)

lemma clear_gone_end: "gone (clear t s) (endNode t)"
  by (simp add: clear_def)

lemma clear_stopped: "\<not> awake (clear t s) (observer t)"
  by (simp add: clear_def observerStop_def)

lemma clear_keeps_stopped: "\<not> awake s u \<Longrightarrow> \<not> awake (clear t s) u"
  by (simp add: clear_def observerStop_def)

lemma observerTrios_clear [simp]: "observerTrios (clear t s) = observerTrios s"
  by (simp add: clear_def observerStop_def removeNode_def)

lemma tornDown_clear: "tornDown t (clear t s)"
  by (simp add: tornDown_def clear_gone_start clear_gone_end clear_stopped)

lemma tornDown_clearTrio: "tornDown t s \<Longrightarrow> tornDown t (clearTrio n s)"
  by (auto simp add: tornDown_def clearTrio_def gone_clear clear_keeps_stopped split: option.splits)

lemma observerTrios_clearTrio [simp]: "observerTrios (clearTrio n s) = observerTrios s"
  by (simp add: clearTrio_def split: option.splits)

lemma tornDown_fold_clearTrio: "tornDown t s \<Longrightarrow> tornDown t (fold clearTrio ns s)"
  by (induction ns arbitrary: s) (simp_all add: tornDown_clearTrio)

lemma observerTrios_fold_clearTrio [simp]: "observerTrios (fold clearTrio ns s) = observerTrios s"
  by (induction ns arbitrary: s) simp_all

lemma fold_clearTrio_tears_down:
  "n \<in> set ns \<Longrightarrow> observerTriosGet s (NodeKey n) = Some t \<Longrightarrow> tornDown t (fold clearTrio ns s)"
proof (induction ns arbitrary: s)
  case Nil
  then show ?case by simp
next
  case (Cons m ns)
  show ?case
  proof (cases "m = n")
    case True
    with Cons.prems have "tornDown t (clearTrio m s)"
      by (simp add: clearTrio_def tornDown_clear)
    then show ?thesis by (simp add: tornDown_fold_clearTrio)
  next
    case False
    with Cons.prems have "n \<in> set ns" by simp
    moreover from Cons.prems have "observerTriosGet (clearTrio m s) (NodeKey n) = Some t"
      by (simp add: observerTriosGet_def)
    ultimately show ?thesis using Cons.IH by simp
  qed
qed

lemma bookmarkObserver_Cons:
  "bookmarkObserver (r # rs) s = bookmarkObserver rs (fold clearTrio (removedNodes r) s)"
  by (simp add: bookmarkObserver_def)

lemma bookmarkObserver_Nil [simp]: "bookmarkObserver [] s = s"
  by (simp add: bookmarkObserver_def)

lemma tornDown_bookmarkObserver: "tornDown t s \<Longrightarrow> tornDown t (bookmarkObserver rs s)"
  by (induction rs arbitrary: s) (simp_all add: bookmarkObserver_Cons tornDown_fold_clearTrio)

lemma bookmarkObserver_tears_down:
  "r \<in> set rs \<Longrightarrow> n \<in> set (removedNodes r) \<Longrightarrow> observerTriosGet s (NodeKey n) = Some t
   \<Longrightarrow> tornDown t (bookmarkObserver rs s)"
proof (induction rs arbitrary: s)
  case Nil
  then show ?case by simp
next
  case (Cons r' rs)
  show ?case
  proof (cases "r' = r")
    case True
    with Cons.prems have "tornDown t (fold clearTrio (removedNodes r') s)"
      by (simp add: fold_clearTrio_tears_down)
    then show ?thesis by (simp add: bookmarkObserver_Cons tornDown_bookmarkObserver)
  next
    case False
    with Cons.prems have "r \<in> set rs" by simp
    then show ?thesis using Cons.IH [of "fold clearTrio (removedNodes r') s"] Cons.prems
      by (simp add: bookmarkObserver_Cons observerTriosGet_def)
  qed
qed

text \<open>
  Claim C2 (atomic teardown). When the batch handed to the marker-cleanup watcher reports
  the removal of a node that is a marker of a registered region, then at the end of that
  one callback both markers of the region are out of the tree (in no child list, so without
  parent) and the region's Observer is stopped. \<open>clear\<close> does the same to the tree when
  the partner marker, or the marker itself, was already removed, and running it a second
  time changes neither the tree nor the Observer's state.
\<close>

theorem atomic_teardown:
  assumes "mutationRecord \<in> set mutationList"
    and "removedNode \<in> set (removedNodes mutationRecord)"
    and "observerTriosGet s (NodeKey removedNode) = Some trio"
  shows "gone (bookmarkObserver mutationList s) (start trio)
       \<and> gone (bookmarkObserver mutationList s) (endNode trio)
       \<and> parentNode (bookmarkObserver mutationList s) (start trio) = None
       \<and> parentNode (bookmarkObserver mutationList s) (endNode trio) = None
       \<and> \<not> awake (bookmarkObserver mutationList s) (observer trio)
       \<and> childNodes (clear trio (removeNode (endNode trio) s)) = childNodes (clear trio s)
       \<and> childNodes (clear trio (removeNode (start trio) s)) = childNodes (clear trio s)
       \<and> childNodes (clear trio (clear trio s)) = childNodes (clear trio s)
       \<and> awake (clear trio (clear trio s)) = awake (clear trio s)"
proof -
  have td: "tornDown trio (bookmarkObserver mutationList s)"
    using assms by (rule bookmarkObserver_tears_down)
  have a: "childNodes (clear trio (removeNode (endNode trio) s)) = childNodes (clear trio s)"
    by (simp add: clear_def observerStop_def removeNode_def removeAll_commute)
  have b: "childNodes (clear trio (removeNode (start trio) s)) = childNodes (clear trio s)"
    by (simp add: clear_def observerStop_def removeNode_def)
  have c: "childNodes (clear trio (clear trio s)) = childNodes (clear trio s)"
    by (simp add: clear_def observerStop_def removeNode_def)
  have d: "awake (clear trio (clear trio s)) = awake (clear trio s)"
    by (simp add: clear_def observerStop_def)
  from td a b c d show ?thesis
    by (simp add: tornDown_def gone_parentNode)
qed

theorem atomic_teardown_witness:
  "\<lparr>addedNodes = [], removedNodes = [3]\<rparr> \<in> set [\<lparr>addedNodes = [], removedNodes = [3]\<rparr>]
   \<and> (3::nat) \<in> set (removedNodes \<lparr>addedNodes = [], removedNodes = [3]\<rparr>)
   \<and> observerTriosGet (removeNode 3 regionPage) (NodeKey 3) = Some \<lparr>start = 3, endNode = 4, observer = 0\<rparr>
   \<and> parentNode (removeNode 3 regionPage) 4 = Some 1
   \<and> awake (removeNode 3 regionPage) 0
   \<and> parentNode (bookmarkObserver [\<lparr>addedNodes = [], removedNodes = [3]\<rparr>] (removeNode 3 regionPage)) 3 = None
   \<and> parentNode (bookmarkObserver [\<lparr>addedNodes = [], removedNodes = [3]\<rparr>] (removeNode 3 regionPage)) 4 = None
   \<and> \<not> awake (bookmarkObserver [\<lparr>addedNodes = [], removedNodes = [3]\<rparr>] (removeNode 3 regionPage)) 0"
proof -
  have r: "\<lparr>addedNodes = [], removedNodes = [3]\<rparr> \<in> set [\<lparr>addedNodes = [], removedNodes = [3]\<rparr>]"
    by simp
  have n: "(3::nat) \<in> set (removedNodes \<lparr>addedNodes = [], removedNodes = [3]\<rparr>)"
    by simp
  have t: "observerTriosGet (removeNode 3 regionPage) (NodeKey 3) = Some \<lparr>start = 3, endNode = 4, observer = 0\<rparr>"
    by code_simp
  have before: "parentNode (removeNode 3 regionPage) 4 = Some 1 \<and> awake (removeNode 3 regionPage) 0"
    by code_simp
  from r n t before atomic_teardown [OF r n t] show ?thesis
    by simp
qed

subsection \<open>Stale re-renders\<close>

text \<open>
  Claim C10. \<open>clear\<close> leaves the list of meta-observers as it is, so the re-render rule of a
  torn-down region can still be run; run after \<open>clear\<close> it returns the page unchanged, and
  so does every run on a page where the start marker or the end marker is not a child of
  the host node.
\<close>

theorem stale_rerender_is_noop:
  "metaObservers (clear trio s) = metaObservers s
   \<and> metaObserverRun self (start trio) (endNode trio) result (clear trio s) = (Inr (), clear trio s)
   \<and> (parentNode s st \<noteq> Some self \<or> parentNode s en \<noteq> Some self
        \<longrightarrow> metaObserverRun self st en result s = (Inr (), s))"
proof -
  have "metaObservers (clear trio s) = metaObservers s"
    by (simp add: clear_def observerStop_def removeNode_def)
  moreover have "parentNode (clear trio s) (start trio) = None"
    by (simp add: gone_parentNode clear_gone_start)
  then have "metaObserverRun self (start trio) (endNode trio) result (clear trio s) = (Inr (), clear trio s)"
    by simp
  moreover have "parentNode s st \<noteq> Some self \<or> parentNode s en \<noteq> Some self
        \<longrightarrow> metaObserverRun self st en result s = (Inr (), s)"
    by auto
  ultimately show ?thesis by blast
qed

theorem stale_rerender_is_noop_witness:
  "parentNode regionPage 3 = Some 1 \<and> parentNode regionPage 4 = Some 1
   \<and> parentNode (removeNode 4 regionPage) 4 = None
   \<and> metaObserverRun 1 3 4 (Str ''y'') (removeNode 4 regionPage) = (Inr (), removeNode 4 regionPage)"
proof -
  have "parentNode regionPage 3 = Some 1 \<and> parentNode regionPage 4 = Some 1"
    by code_simp
  moreover have "parentNode (removeNode 4 regionPage) 4 = None"
    by simp
  ultimately show ?thesis
    using stale_rerender_is_noop [of "\<lparr>start = 3, endNode = 4, observer = 0\<rparr>" "removeNode 4 regionPage" 1 "Str ''y''" 3 4]
    by simp
qed

subsection \<open>The value append returns\<close>

text \<open>
  Claim C4. \<open>append\<close> of an empty sequence, and of a function that returns nothing, insert
  nothing: the page is the same afterwards. Both calls return \<open>true\<close>.
\<close>

theorem append_nothing_returns_true:
  "appendEl 1 (Iterable []) None examplePage = (Inr True, examplePage)
   \<and> appendEl 1 (Func Undefined) None examplePage = (Inr True, examplePage)"
  by (simp add: detachedPoint_def)

subsection \<open>The tree-attachment watcher\<close>

lemma sameTree_refl [simp]: "sameTree s s"
  by (simp add: sameTree_def)

lemma sameTree_trans: "sameTree s s1 \<Longrightarrow> sameTree s1 s2 \<Longrightarrow> sameTree s s2"
  by (simp add: sameTree_def)

lemma sameTree_unitsIn: "sameTree s s' \<Longrightarrow> unitsIn s' = unitsIn s"
proof (rule ext)
  fix n
  assume a: "sameTree s s'"
  have "subtree k s' m = subtree k s m" for k m
    using a by (induction k arbitrary: m) (simp_all add: sameTree_def cong: map_cong)
  then have "getAllComments s' n = getAllComments s n"
    using a by (simp add: getAllComments_def sameTree_def isComment_def [abs_def])
  then show "unitsIn s' n = unitsIn s n"
    using a by (simp add: unitsIn_def observerTriosGet_def [abs_def] sameTree_def)
qed

lemma sameTree_startTrio: "sameTree s (startTrio c s)"
  by (simp add: sameTree_def startTrio_def observerStart_def split: option.splits)

lemma sameTree_stopTrio: "sameTree s (stopTrio c s)"
  by (simp add: sameTree_def stopTrio_def observerStop_def split: option.splits)

lemma map_filter_Cons:
  "List.map_filter f (x # xs) = (case f x of None \<Rightarrow> List.map_filter f xs | Some y \<Rightarrow> y # List.map_filter f xs)"
  by simp

lemma map_filter_Nil: "List.map_filter f [] = []"
  by simp

lemma fold_startTrio:
  "sameTree s (fold startTrio cs s)
   \<and> awake (fold startTrio cs s) u =
       (awake s u \<or> u \<in> set (List.map_filter (\<lambda>c. map_option observer (observerTriosGet s (NodeKey c))) cs))"
proof (induction cs arbitrary: s)
  case Nil
  then show ?case by (simp add: map_filter_Nil)
next
  case (Cons c cs)
  let ?s1 = "startTrio c s"
  have st: "sameTree s ?s1" by (rule sameTree_startTrio)
  then have g: "observerTriosGet ?s1 = observerTriosGet s"
    by (simp add: sameTree_def observerTriosGet_def [abs_def])
  have a: "awake ?s1 u = (awake s u \<or> map_option observer (observerTriosGet s (NodeKey c)) = Some u)"
    by (auto simp add: startTrio_def observerStart_def split: option.splits)
  from Cons [of ?s1] have 1: "sameTree ?s1 (fold startTrio cs ?s1)"
    and 2: "awake (fold startTrio cs ?s1) u =
       (awake ?s1 u \<or> u \<in> set (List.map_filter (\<lambda>c. map_option observer (observerTriosGet s (NodeKey c))) cs))"
    unfolding g by blast+
  have "sameTree s (fold startTrio (c # cs) s)"
    using st 1 by (auto intro: sameTree_trans)
  moreover have "awake (fold startTrio (c # cs) s) u =
       (awake s u \<or> u \<in> set (List.map_filter (\<lambda>c. map_option observer (observerTriosGet s (NodeKey c))) (c # cs)))"
    unfolding map_filter_Cons using 2 a
    by (cases "observerTriosGet s (NodeKey c)") auto
  ultimately show ?case by blast
qed

lemma fold_stopTrio:
  "sameTree s (fold stopTrio cs s)
   \<and> awake (fold stopTrio cs s) u =
       (awake s u \<and> u \<notin> set (List.map_filter (\<lambda>c. map_option observer (observerTriosGet s (NodeKey c))) cs))"
proof (induction cs arbitrary: s)
  case Nil
  then show ?case by (simp add: map_filter_Nil)
next
  case (Cons c cs)
  let ?s1 = "stopTrio c s"
  have st: "sameTree s ?s1" by (rule sameTree_stopTrio)
  then have g: "observerTriosGet ?s1 = observerTriosGet s"
    by (simp add: sameTree_def observerTriosGet_def [abs_def])
  have a: "awake ?s1 u = (awake s u \<and> map_option observer (observerTriosGet s (NodeKey c)) \<noteq> Some u)"
    by (auto simp add: stopTrio_def observerStop_def split: option.splits)
  from Cons [of ?s1] have 1: "sameTree ?s1 (fold stopTrio cs ?s1)"
    and 2: "awake (fold stopTrio cs ?s1) u =
       (awake ?s1 u \<and> u \<notin> set (List.map_filter (\<lambda>c. map_option observer (observerTriosGet s (NodeKey c))) cs))"
    unfolding g by blast+
  have "sameTree s (fold stopTrio (c # cs) s)"
    using st 1 by (auto intro: sameTree_trans)
  moreover have "awake (fold stopTrio (c # cs) s) u =
       (awake s u \<and> u \<notin> set (List.map_filter (\<lambda>c. map_option observer (observerTriosGet s (NodeKey c))) (c # cs)))"
    unfolding map_filter_Cons using 2 a
    by (cases "observerTriosGet s (NodeKey c)") auto
  ultimately show ?case by blast
qed

lemma fold_start_nodes:
  "sameTree s (fold (\<lambda>addedNode s'. fold startTrio (getAllComments s' addedNode) s') ns s)
   \<and> awake (fold (\<lambda>addedNode s'. fold startTrio (getAllComments s' addedNode) s') ns s) u =
       (awake s u \<or> u \<in> set (concat (map (unitsIn s) ns)))"
proof (induction ns arbitrary: s)
  case Nil
  then show ?case by simp
next
  case (Cons n ns)
  let ?s1 = "fold startTrio (getAllComments s n) s"
  have 1: "sameTree s ?s1" and 2: "awake ?s1 u = (awake s u \<or> u \<in> set (unitsIn s n))"
    using fold_startTrio [of s "getAllComments s n" u] by (simp_all add: unitsIn_def)
  have 3: "unitsIn ?s1 = unitsIn s" using 1 by (rule sameTree_unitsIn)
  show ?case using Cons [of ?s1] 1 2 3 by (auto intro: sameTree_trans)
qed

lemma fold_stop_nodes:
  "sameTree s (fold (\<lambda>removedNode s'. fold stopTrio (getAllComments s' removedNode) s') ns s)
   \<and> awake (fold (\<lambda>removedNode s'. fold stopTrio (getAllComments s' removedNode) s') ns s) u =
       (awake s u \<and> u \<notin> set (concat (map (unitsIn s) ns)))"
proof (induction ns arbitrary: s)
  case Nil
  then show ?case by simp
next
  case (Cons n ns)
  let ?s1 = "fold stopTrio (getAllComments s n) s"
  have 1: "sameTree s ?s1" and 2: "awake ?s1 u = (awake s u \<and> u \<notin> set (unitsIn s n))"
    using fold_stopTrio [of s "getAllComments s n" u] by (simp_all add: unitsIn_def)
  have 3: "unitsIn ?s1 = unitsIn s" using 1 by (rule sameTree_unitsIn)
  show ?case using Cons [of ?s1] 1 2 3 by (auto intro: sameTree_trans)
qed

lemma docObserverRecord_effect:
  "sameTree s (docObserverRecord r s)"
  "awake (docObserverRecord r s) u =
     (u \<notin> set (stoppedBy s r) \<and> (u \<in> set (startedBy s r) \<or> awake s u))"
proof -
  define s1 where "s1 = fold (\<lambda>addedNode s'. fold startTrio (getAllComments s' addedNode) s') (addedNodes r) s"
  define s2 where "s2 = fold (\<lambda>removedNode s'. fold stopTrio (getAllComments s' removedNode) s') (removedNodes r) s1"
  have d: "docObserverRecord r s = s2"
    by (simp add: docObserverRecord_def s1_def s2_def Let_def)
  have 1: "sameTree s s1" and 2: "awake s1 u = (awake s u \<or> u \<in> set (startedBy s r))"
    using fold_start_nodes [of s "addedNodes r" u] by (simp_all add: startedBy_def s1_def)
  have 3: "unitsIn s1 = unitsIn s" using 1 by (rule sameTree_unitsIn)
  have 4: "sameTree s1 s2" and 5: "awake s2 u = (awake s1 u \<and> u \<notin> set (stoppedBy s r))"
    using fold_stop_nodes [of s1 "removedNodes r" u] by (simp_all add: stoppedBy_def s2_def 3)
  show "sameTree s (docObserverRecord r s)"
    unfolding d using 1 4 by (rule sameTree_trans)
  show "awake (docObserverRecord r s) u =
     (u \<notin> set (stoppedBy s r) \<and> (u \<in> set (startedBy s r) \<or> awake s u))"
    unfolding d using 2 5 by blast
qed

lemma docObserver_sameTree: "sameTree s (docObserver rs s)"
proof (induction rs arbitrary: s)
  case Nil
  then show ?case by (simp add: docObserver_def)
next
  case (Cons r rs)
  show ?case
    using Cons [of "docObserverRecord r s"] docObserverRecord_effect(1) [of s r]
    by (auto simp add: docObserver_def intro: sameTree_trans)
qed

lemma docObserver_append: "docObserver (rs1 @ rs2) s = docObserver rs2 (docObserver rs1 s)"
  by (simp add: docObserver_def)



lemma map_filter_append: "List.map_filter f (xs @ ys) = List.map_filter f xs @ List.map_filter f ys"
  by (simp add: List.map_filter_def)










subsection \<open>The ancestors of the host element\<close>

lemma ancestors_stable:
  "parentNode s (last (n # ancestors k s n)) = None \<Longrightarrow> ancestors (k + j) s n = ancestors k s n"
proof (induction k arbitrary: n)
  case 0
  then show ?case by (cases j) simp_all
next
  case (Suc k)
  then show ?case by (cases "parentNode s n") simp_all
qed

lemma ancestors_cong:
  "(\<And>m. m \<in> set (n # ancestors k s n) \<Longrightarrow> parentNode s' m = parentNode s m)
   \<Longrightarrow> ancestors k s' n = ancestors k s n"
proof (induction k arbitrary: n)
  case 0
  then show ?case by simp
next
  case (Suc k)
  show ?case
  proof (cases "parentNode s n")
    case None
    with Suc.prems [of n] show ?thesis by simp
  next
    case (Some q)
    have "ancestors k s' q = ancestors k s q"
      using Suc.prems Some by (intro Suc.IH) auto
    with Suc.prems [of n] Some show ?thesis by simp
  qed
qed

lemma complete_parent:
  assumes "parentNode s (last (x # ancestors k s x)) = None" and "parentNode s x = Some q"
  shows "ancestors k s x = q # ancestors k s q \<and> parentNode s (last (q # ancestors k s q)) = None"
proof (cases k)
  case 0
  with assms show ?thesis by simp
next
  case (Suc j)
  with assms have c: "parentNode s (last (q # ancestors j s q)) = None"
    by simp
  then have "ancestors (j + 1) s q = ancestors j s q" by (rule ancestors_stable)
  with Suc assms c show ?thesis by simp
qed

lemma ancestors_no_parent: "parentNode s x = None \<Longrightarrow> ancestors k s x = []"
  by (cases k) simp_all

lemma chain_closed:
  "parentNode s (last (x # ancestors k s x)) = None \<Longrightarrow> m \<in> set (x # ancestors k s x)
   \<Longrightarrow> parentNode s m = Some p \<Longrightarrow> p \<in> set (ancestors k s x)"
proof (induction "length (ancestors k s x)" arbitrary: x)
  case 0
  then show ?case by simp
next
  case (Suc l)
  then obtain q where q: "parentNode s x = Some q"
    by (cases "parentNode s x") (simp_all add: ancestors_no_parent)
  note cp = complete_parent [OF Suc.prems(1) q]
  show ?case
  proof (cases "m = x")
    case True
    with Suc.prems q cp show ?thesis by simp
  next
    case False
    with Suc.prems cp have "m \<in> set (q # ancestors k s q)" by simp
    moreover have "l = length (ancestors k s q)" using Suc.hyps(2) cp by simp
    ultimately have "p \<in> set (ancestors k s q)"
      using Suc.hyps(1) [of q] cp Suc.prems(3) by simp
    with cp show ?thesis by simp
  qed
qed

lemma chain_shorter:
  "parentNode s (last (x # ancestors k s x)) = None \<Longrightarrow> m \<in> set (ancestors k s x)
   \<Longrightarrow> length (ancestors k s m) < length (ancestors k s x)"
proof (induction "length (ancestors k s x)" arbitrary: x)
  case 0
  then show ?case by simp
next
  case (Suc l)
  then obtain q where q: "parentNode s x = Some q"
    by (cases "parentNode s x") (simp_all add: ancestors_no_parent)
  note cp = complete_parent [OF Suc.prems(1) q]
  show ?case
  proof (cases "m = q")
    case True
    with cp show ?thesis by simp
  next
    case False
    with Suc.prems cp have "m \<in> set (ancestors k s q)" by simp
    moreover have "l = length (ancestors k s q)" using Suc.hyps(2) cp by simp
    ultimately have "length (ancestors k s m) < length (ancestors k s q)"
      using Suc.hyps(1) [of q] cp by simp
    with cp show ?thesis by simp
  qed
qed

lemma rooted_not_own_ancestor: "rooted s x \<Longrightarrow> x \<notin> set (ancestors (nextNode s) s x)"
  using chain_shorter [of s x "nextNode s" x] by (auto simp add: rooted_def)

lemma rooted_child_not_in_chain:
  assumes "rooted s self" and "wf s" and "self < nextNode s" and "x \<in> set (childNodes s self)"
  shows "x \<notin> set (self # ancestors (nextNode s) s self)"
proof
  assume x: "x \<in> set (self # ancestors (nextNode s) s self)"
  have "parentNode s x = Some self" using assms by (simp add: wf_parentNode)
  with x assms(1) have "self \<in> set (ancestors (nextNode s) s self)"
    unfolding rooted_def by (blast intro: chain_closed)
  with assms(1) show False by (simp add: rooted_not_own_ancestor)
qed


lemma step_keepsChain:
  assumes "step self s s'" and "wf s" and "rooted s self"
    and "m \<in> set (self # ancestors (nextNode s) s self)" and "self < nextNode s"
  shows "parentNode s' m = parentNode s m"
  using assms
proof (induction rule: step.induct)
  case (createS ty tx s)
  then show ?case by simp
next
  case (insertS n ref s s')
  have "m \<notin> set (movedNodes s n)"
  proof
    assume mm: "m \<in> set (movedNodes s n)"
    have nc: "\<not> contains s n self" using insertS(1) by (rule insertBefore_Inr)
    show False
    proof (cases "nodeType s n = DocumentFragment")
      case False
      with mm have "m = n" by (simp add: movedNodes_def)
      with insertS(6) nc show False by (auto simp add: contains_def)
    next
      case True
      with mm have "m \<in> set (childNodes s n)" by (simp add: movedNodes_def)
      then have "parentNode s m = Some n"
        using insertS by (simp add: wf_parentNode insertable_less)
      with insertS(5,6) have "n \<in> set (ancestors (nextNode s) s self)"
        unfolding rooted_def by (blast intro: chain_closed)
      with nc show False by (simp add: contains_def)
    qed
  qed
  with insertS(1) show ?case by (rule parentNode_insertBefore_other)
next
  case (removeS x s)
  then have "x \<notin> set (self # ancestors (nextNode s) s self)"
    by (intro rooted_child_not_in_chain) auto
  with removeS have "m \<noteq> x" by auto
  then show ?case by (simp add: parentNode_removeNode_other)
next
  case (registerS s A st en B u)
  then show ?case by (simp add: parentNode_def registerTrio_def Let_def)
next
  case (otherS s' s)
  then show ?case by (simp add: parentNode_def)
qed


lemma keepsChain_ancestors:
  assumes "rooted s self" and "nextNode s \<le> nextNode s'"
    and "\<And>m. m \<in> set (self # ancestors (nextNode s) s self) \<Longrightarrow> parentNode s' m = parentNode s m"
  shows "ancestors (nextNode s') s' self = ancestors (nextNode s) s self" and "rooted s' self"
proof -
  obtain j where j: "nextNode s' = nextNode s + j"
    using assms(2) by (auto simp add: le_iff_add)
  have st: "ancestors (nextNode s') s self = ancestors (nextNode s) s self"
    unfolding j using assms(1) unfolding rooted_def by (rule ancestors_stable)
  have "ancestors (nextNode s') s' self = ancestors (nextNode s') s self"
    by (rule ancestors_cong) (simp add: st assms(3))
  with st show 1: "ancestors (nextNode s') s' self = ancestors (nextNode s) s self" by simp
  have "last (self # ancestors (nextNode s) s self) \<in> set (self # ancestors (nextNode s) s self)"
    by (rule last_in_set) simp
  then have "parentNode s' (last (self # ancestors (nextNode s) s self))
      = parentNode s (last (self # ancestors (nextNode s) s self))"
    by (rule assms(3))
  with 1 assms(1) show "rooted s' self" by (simp add: rooted_def)
qed

lemma edits_keepsChain:
  assumes "edits self s s'" and "wf s" and "rooted s self" and "self < nextNode s"
  shows "(\<forall>m\<in>set (self # ancestors (nextNode s) s self). parentNode s' m = parentNode s m)
       \<and> ancestors (nextNode s') s' self = ancestors (nextNode s) s self \<and> rooted s' self"
  using assms
proof (induction rule: edits.induct)
  case (edits_refl s)
  then show ?case by simp
next
  case (edits_step s s1 s2)
  then have ih: "\<forall>m\<in>set (self # ancestors (nextNode s) s self). parentNode s1 m = parentNode s m"
    and a1: "ancestors (nextNode s1) s1 self = ancestors (nextNode s) s self" and r1: "rooted s1 self"
    by simp_all
  have wf1: "wf s1" using edits_step.hyps(1) edits_step.prems(1) by (rule wf_edits)
  have n1: "nextNode s \<le> nextNode s1" using edits_step.hyps(1) by (rule edits_nextNode)
  have n2: "nextNode s1 \<le> nextNode s2" using edits_step.hyps(2) by (rule step_nextNode)
  have k: "\<And>m. m \<in> set (self # ancestors (nextNode s1) s1 self) \<Longrightarrow> parentNode s2 m = parentNode s1 m"
    using edits_step.hyps(2) wf1 r1 n1 edits_step.prems(3) by (intro step_keepsChain) auto
  note kc = keepsChain_ancestors [OF r1 n2 k]
  show ?case using ih a1 k kc by simp
qed

lemma edits_contains:
  assumes "edits self s s'" and "wf s" and "rooted s self" and "self < nextNode s"
  shows "contains s' a self = contains s a self"
  using edits_keepsChain [OF assms] by (simp add: contains_def)

subsection \<open>Kickoff of an appended Observer\<close>

lemma appendEl_ObserverRef_Inr:
  assumes "appendEl self (ObserverRef u v) ip s = (Inr b, s')" and "\<not> detachedPoint self ip s"
  obtains s3 s4 s7 where
    "insertBefore self (nextNode s) ip
       (snd (createComment ''observerEnd'' (snd (createComment ''observerStart'' s)))) = Inr s3"
    and "insertBefore self (Suc (nextNode s)) ip s3 = Inr s4"
    and "metaObserverRun self (nextNode s) (Suc (nextNode s)) v (bookends self u s4) = (Inr (), s7)"
    and "s' = kickoff self u s7" and "b"
proof -
  let ?s2 = "snd (createComment ''observerEnd'' (snd (createComment ''observerStart'' s)))"
  from assms obtain s3 where i3: "insertBefore self (nextNode s) ip ?s2 = Inr s3"
    by (cases "insertBefore self (nextNode s) ip ?s2")
      (simp_all add: createComment_def split_beta)
  with assms obtain s4 where i4: "insertBefore self (Suc (nextNode s)) ip s3 = Inr s4"
    by (cases "insertBefore self (Suc (nextNode s)) ip s3")
      (simp_all add: createComment_def split_beta)
  have n4: "nextNode s4 = Suc (Suc (nextNode s))"
    using insertBefore_Inr(2) [OF i3] insertBefore_Inr(2) [OF i4]
    by (simp add: createComment_def)
  obtain r s7 where m: "metaObserverRun self (nextNode s) (Suc (nextNode s)) v (bookends self u s4) = (r, s7)"
    by force
  have b6: "bookends self u s4 = (registerTrio (nextNode s) (Suc (nextNode s)) u s4)
      \<lparr>metaObservers := metaObservers (registerTrio (nextNode s) (Suc (nextNode s)) u s4) @
           [\<lparr>metaChild = u, metaSelf = self, metaStart = nextNode s, metaEnd = Suc (nextNode s)\<rparr>]\<rparr>"
    by (simp add: bookends_def n4 registerTrio_def Let_def)
  from assms i3 i4 m have "r = Inr () \<and> s' = kickoff self u s7 \<and> b"
    unfolding b6 by (cases r) (simp_all add: createComment_def split_beta Let_def del: metaObserverRun.simps)
  with i3 i4 m that show thesis by blast
qed


lemma appendEl_edits:
  "wf s \<Longrightarrow> instanceofElement s self \<Longrightarrow> edits self s (snd (appendEl self c ip s))"
  by (simp add: appendEl_edits_aux)

lemma metaObserverRun_edits:
  "wf s \<Longrightarrow> instanceofElement s self \<Longrightarrow> edits self s (snd (metaObserverRun self st en v s))"
  by (simp add: appendEl_edits_aux del: metaObserverRun.simps)

lemma contains_cong:
  "childNodes s' = childNodes s \<Longrightarrow> nextNode s' = nextNode s \<Longrightarrow> contains s' a n = contains s a n"
proof -
  assume a: "childNodes s' = childNodes s" "nextNode s' = nextNode s"
  then have "parentNode s' = parentNode s" by (simp add: parentNode_def [abs_def])
  then have "ancestors k s' m = ancestors k s m" for k m
    by (induction k arbitrary: m) (simp_all split: option.splits)
  with a show ?thesis by (simp add: contains_def)
qed

lemma kickoff_awake:
  "awake (kickoff self u s) u = contains s document self"
proof -
  let ?s1 = "observerStart u (observerStop u (setArgsContext u self (setThisContext u self s)))"
  have "contains ?s1 document self = contains s document self"
    by (rule contains_cong)
      (simp_all add: observerStart_def observerStop_def setArgsContext_def setThisContext_def)
  then show ?thesis
    by (simp add: kickoff_def Let_def) (simp add: observerStart_def observerStop_def)
qed

lemma kickoff_calls:
  "calls (kickoff self u s) =
     calls s @ [(u, SetThisContext self), (u, SetArgsContext self), (u, Stop), (u, Start)]
       @ (if contains s document self then [] else [(u, Stop)])"
proof -
  let ?s1 = "observerStart u (observerStop u (setArgsContext u self (setThisContext u self s)))"
  have "contains ?s1 document self = contains s document self"
    by (rule contains_cong)
      (simp_all add: observerStart_def observerStop_def setArgsContext_def setThisContext_def)
  then show ?thesis
    by (simp add: kickoff_def Let_def)
      (simp add: observerStart_def observerStop_def setArgsContext_def setThisContext_def)
qed

text \<open>
  Claim C5, as the code has it. When \<open>append\<close> of an Observer on a well-formed page
  returns, with an insertion point that is absent or a child of the host element, the
  last calls it made on the Observer are \<open>setThisContext\<close>, \<open>setArgsContext\<close>, \<open>stop\<close>
  and \<open>start\<close>, followed by one more \<open>stop\<close> exactly when the host element was not in
  the document; the Observer is left started when the host element was in the document
  and stopped when it was not.
\<close>

theorem kickoff_starts_then_stops_off_tree:
  assumes "wf s" and "instanceofElement s self" and "rooted s self"
    and "\<not> detachedPoint self insertionPoint s"
    and "appendEl self (ObserverRef u v) insertionPoint s = (Inr b, s')"
  shows "awake s' u = contains s document self
       \<and> (\<exists>cs. calls s' =
             cs @ [(u, SetThisContext self), (u, SetArgsContext self), (u, Stop), (u, Start)]
                @ (if contains s document self then [] else [(u, Stop)]))"
proof -
  from assms(5,4) obtain s3 s4 s7 where
    i3: "insertBefore self (nextNode s) insertionPoint
       (snd (createComment ''observerEnd'' (snd (createComment ''observerStart'' s)))) = Inr s3"
    and i4: "insertBefore self (Suc (nextNode s)) insertionPoint s3 = Inr s4"
    and m: "metaObserverRun self (nextNode s) (Suc (nextNode s)) v (bookends self u s4) = (Inr (), s7)"
    and s': "s' = kickoff self u s7"
    by (rule appendEl_ObserverRef_Inr)
  have n4: "nextNode s4 = Suc (Suc (nextNode s))"
    using insertBefore_Inr(2) [OF i3] insertBefore_Inr(2) [OF i4]
    by (simp add: createComment_def)
  have self: "self < nextNode s" using assms(2) by (rule instanceofElement_less)
  have e6: "edits self s (bookends self u s4)"
    using bookends_edits [OF assms(1) self refl refl i3 i4]
    by (simp add: bookends_def n4 registerTrio_def Let_def)
  have "edits self (bookends self u s4) (snd (metaObserverRun self (nextNode s) (Suc (nextNode s)) v (bookends self u s4)))"
    using wf_edits [OF e6 assms(1)] edits_instanceofElement [OF e6 assms(2)]
    by (rule metaObserverRun_edits)
  then have "edits self s s7" using m e6 by (simp add: edits_trans del: metaObserverRun.simps)
  then have c: "contains s7 document self = contains s document self"
    using assms(1,3) self by (rule edits_contains)
  show ?thesis
    unfolding s' using c by (simp add: kickoff_awake kickoff_calls)
qed

theorem kickoff_starts_then_stops_off_tree_witness:
  "wf examplePage \<and> instanceofElement examplePage 2 \<and> rooted examplePage 2
   \<and> \<not> detachedPoint 2 None examplePage
   \<and> \<not> contains examplePage document 2
   \<and> fst (appendEl 2 (ObserverRef 0 (Str ''x'')) None examplePage) = Inr True
   \<and> \<not> awake (snd (appendEl 2 (ObserverRef 0 (Str ''x'')) None examplePage)) 0
   \<and> calls (snd (appendEl 2 (ObserverRef 0 (Str ''x'')) None examplePage))
       = [(0, SetThisContext 2), (0, SetArgsContext 2), (0, Stop), (0, Start), (0, Stop)]"
proof -
  have h: "wf examplePage" "instanceofElement examplePage 2" "rooted examplePage 2"
    "\<not> detachedPoint 2 None examplePage" "\<not> contains examplePage document 2"
    by code_simp+
  have r: "fst (appendEl 2 (ObserverRef 0 (Str ''x'')) None examplePage) = Inr True"
    by code_simp
  have c: "calls (snd (appendEl 2 (ObserverRef 0 (Str ''x'')) None examplePage))
       = [(0, SetThisContext 2), (0, SetArgsContext 2), (0, Stop), (0, Start), (0, Stop)]"
    by code_simp
  have "appendEl 2 (ObserverRef 0 (Str ''x'')) None examplePage
      = (Inr True, snd (appendEl 2 (ObserverRef 0 (Str ''x'')) None examplePage))"
    using r by (metis prod.collapse)
  from kickoff_starts_then_stops_off_tree [OF h(1-4) this] h r c show ?thesis
    by simp
qed

text \<open>
  Claim C5 as stated fails: appended to the detached element 2, the Observer is started
  once (the call \<open>start\<close> is in the log of the calls made on it) before it is stopped.
\<close>

theorem off_tree_observer_is_started_counterexample:
  "\<not> contains examplePage document 2
   \<and> calls examplePage = []
   \<and> (0, Start) \<in> set (calls (snd (appendEl 2 (ObserverRef 0 (Str ''x'')) None examplePage)))"
  by code_simp

subsection \<open>Where append puts its nodes\<close>

lemma step_childNodes_other:
  "step self s s' \<Longrightarrow> p \<noteq> self \<Longrightarrow> p < nextNode s \<Longrightarrow> set (childNodes s' p) \<subseteq> set (childNodes s p)"
proof (induction rule: step.induct)
  case (createS ty tx s)
  then show ?case by simp
next
  case (insertS n ref s s')
  from insertBefore_Inr(9) [OF insertS(1) insertS(4)] show ?case by auto
next
  case (removeS x s)
  then show ?case by auto
next
  case (registerS s A st en B u)
  then show ?case by (simp add: registerTrio_def Let_def)
next
  case (otherS s' s)
  then show ?case by simp
qed

lemma edits_childNodes_other:
  "edits self s s' \<Longrightarrow> p \<noteq> self \<Longrightarrow> p < nextNode s \<Longrightarrow> set (childNodes s' p) \<subseteq> set (childNodes s p)"
proof (induction rule: edits.induct)
  case (edits_refl s)
  then show ?case by simp
next
  case (edits_step s s1 s2)
  then have "p < nextNode s1" using edits_nextNode [of self s s1] by simp
  with edits_step show ?case using step_childNodes_other [of self s1 s2 p] by blast
qed

lemma step_fresh_type:
  "step self s s' \<Longrightarrow> nextNode s \<le> x \<Longrightarrow> x < nextNode s'
   \<Longrightarrow> nodeType s' x \<noteq> DocumentFragment \<and> nodeType s' x \<noteq> Element"
proof (induction rule: step.induct)
  case (createS ty tx s)
  then show ?case by (auto simp add: less_Suc_eq)
next
  case (insertS n ref s s')
  from insertBefore_Inr(2) [OF insertS(1)] insertS(4,5) show ?case by simp
next
  case (removeS x s)
  then show ?case by simp
next
  case (registerS s A st en B u)
  then show ?case by (simp add: registerTrio_def Let_def)
next
  case (otherS s' s)
  then show ?case by simp
qed

lemma edits_fresh_type:
  "edits self s s' \<Longrightarrow> nextNode s \<le> x \<Longrightarrow> x < nextNode s' \<Longrightarrow> nodeType s' x \<noteq> DocumentFragment \<and> nodeType s' x \<noteq> Element"
proof (induction rule: edits.induct)
  case (edits_refl s)
  then show ?case by simp
next
  case (edits_step s s1 s2)
  show ?case
  proof (cases "x < nextNode s1")
    case True
    with edits_step have "nodeType s1 x \<noteq> DocumentFragment \<and> nodeType s1 x \<noteq> Element" by simp
    with True edits_step.hyps(2) show ?thesis by (simp add: step_nodeType)
  next
    case False
    with edits_step show ?thesis using step_fresh_type [of self s1 s2 x] by simp
  qed
qed

lemma movable_mono:
  assumes "edits self s s'" and "instanceofElement s self"
  shows "movable s' \<subseteq> movable s"
proof
  fix x assume x: "x \<in> movable s'"
  show "x \<in> movable s"
  proof (cases "nextNode s \<le> x")
    case True
    then show ?thesis by (simp add: movable_def)
  next
    case False
    then have xs: "x < nextNode s" by simp
    note n = edits_nextNode [OF assms(1)]
    from x xs n consider (el) "instanceofElement s' x"
      | (fr) f where "instanceofDocumentFragment s' f" "x \<in> set (childNodes s' f)"
      by (auto simp add: movable_def)
    then show ?thesis
    proof cases
      case el
      with xs edits_nodeType [OF assms(1) xs] show ?thesis
        by (simp add: movable_def instanceofElement_def)
    next
      case fr
      have f: "f < nextNode s"
        using fr(1) edits_fresh_type [OF assms(1), of f]
        by (auto simp add: instanceofDocumentFragment_def intro: ccontr)
      then have ft: "instanceofDocumentFragment s f"
        using fr(1) edits_nodeType [OF assms(1) f] by (simp add: instanceofDocumentFragment_def)
      with assms(2) have "f \<noteq> self"
        by (auto simp add: instanceofDocumentFragment_def instanceofElement_def)
      then have "x \<in> set (childNodes s f)"
        using fr(2) edits_childNodes_other [OF assms(1) _ f] by blast
      with ft show ?thesis by (auto simp add: movable_def)
    qed
  qed
qed

lemma comment_child_not_movable:
  assumes "wf s" and "instanceofElement s self" and "r \<in> set (childNodes s self)"
    and "nodeType s r \<noteq> Element"
  shows "r \<notin> movable s"
proof
  assume "r \<in> movable s"
  moreover have rl: "r < nextNode s"
    using assms by (auto intro: wf_child_less simp add: instanceofElement_def)
  moreover have "parentNode s r = Some self"
    using assms by (simp add: wf_parentNode instanceofElement_def)
  ultimately obtain f where "instanceofDocumentFragment s f" "parentNode s r = Some f"
    using assms(1,4)
    by (auto simp add: movable_def instanceofElement_def instanceofDocumentFragment_def wf_parentNode)
  with \<open>parentNode s r = Some self\<close> assms(2) show False
    by (simp add: instanceofDocumentFragment_def instanceofElement_def)
qed

lemma split_first_unique:
  "r \<notin> set A \<Longrightarrow> r \<notin> set A' \<Longrightarrow> A @ r # B = A' @ r # B' \<Longrightarrow> A = A' \<and> B = B'"
proof (induction A arbitrary: A')
  case Nil
  then show ?case by (cases A') auto
next
  case (Cons a A)
  then show ?case by (cases A') auto
qed

lemma split_unique:
  assumes "distinct (A @ r # B)" and "A @ r # B = A' @ r # B'"
  shows "A = A' \<and> B = B'"
proof -
  from assms have "distinct (A' @ r # B')" by simp
  then have "r \<notin> set A'" by simp
  moreover from assms(1) have "r \<notin> set A" by simp
  ultimately show ?thesis using assms(2) by (intro split_first_unique)
qed

lemma filter_filter_notin:
  "filter (\<lambda>x. x \<notin> set N2) (filter (\<lambda>x. x \<notin> set N1) xs)
   = filter (\<lambda>x. x \<notin> set (filter (\<lambda>x. x \<notin> set N2) N1 @ N2)) xs"
  by (induction xs) auto

lemma placed_trans:
  assumes "placed ip N1 xs xs1" and "placed ip N2 xs1 xs2" and "distinct xs1"
  shows "placed ip (filter (\<lambda>x. x \<notin> set N2) N1 @ N2) xs xs2"
proof (cases ip)
  case None
  with assms have 1: "xs1 = filter (\<lambda>x. x \<notin> set N1) xs @ N1"
    and 2: "xs2 = filter (\<lambda>x. x \<notin> set N2) xs1 @ N2"
    by (simp_all add: placed_def)
  have "xs2 = filter (\<lambda>x. x \<notin> set N2) (filter (\<lambda>x. x \<notin> set N1) xs) @ filter (\<lambda>x. x \<notin> set N2) N1 @ N2"
    unfolding 2 1 by (simp only: filter_append append_assoc)
  then have "xs2 = filter (\<lambda>x. x \<notin> set (filter (\<lambda>x. x \<notin> set N2) N1 @ N2)) xs @ filter (\<lambda>x. x \<notin> set N2) N1 @ N2"
    by (simp only: filter_filter_notin)
  with None show ?thesis by (simp only: placed_def option.case)
next
  case (Some r)
  let ?N = "filter (\<lambda>x. x \<notin> set N2) N1 @ N2"
  from Some assms(1) obtain A B where 1: "xs = A @ r # B"
    "xs1 = filter (\<lambda>x. x \<notin> set N1) A @ N1 @ r # filter (\<lambda>x. x \<notin> set N1) B"
    by (auto simp add: placed_def)
  from Some assms(2) obtain A1 B1 where 2: "xs1 = A1 @ r # B1"
    "xs2 = filter (\<lambda>x. x \<notin> set N2) A1 @ N2 @ r # filter (\<lambda>x. x \<notin> set N2) B1"
    by (auto simp add: placed_def)
  have e: "(filter (\<lambda>x. x \<notin> set N1) A @ N1) @ r # filter (\<lambda>x. x \<notin> set N1) B = A1 @ r # B1"
    using 2(1) unfolding 1(2) by (simp only: append_assoc)
  have d: "distinct ((filter (\<lambda>x. x \<notin> set N1) A @ N1) @ r # filter (\<lambda>x. x \<notin> set N1) B)"
    using assms(3) unfolding 1(2) by (simp only: append_assoc)
  note su = split_unique [OF d e]
  have AB: "A1 = filter (\<lambda>x. x \<notin> set N1) A @ N1" "B1 = filter (\<lambda>x. x \<notin> set N1) B"
    using su by simp_all
  have "xs2 = (filter (\<lambda>x. x \<notin> set N2) (filter (\<lambda>x. x \<notin> set N1) A) @ filter (\<lambda>x. x \<notin> set N2) N1) @ N2
      @ r # filter (\<lambda>x. x \<notin> set N2) (filter (\<lambda>x. x \<notin> set N1) B)"
    unfolding 2(2) AB by (simp only: filter_append)
  then have "xs2 = filter (\<lambda>x. x \<notin> set ?N) A @ ?N @ r # filter (\<lambda>x. x \<notin> set ?N) B"
    by (simp only: filter_filter_notin append_assoc)
  with 1(1) Some show ?thesis
    unfolding placed_def by (simp only: option.case) blast
qed

lemma placed_Nil: "attachedPoint s self ip \<Longrightarrow> placed ip [] (childNodes s self) (childNodes s self)"
proof (cases ip)
  case None
  then show ?thesis by (simp add: placed_def)
next
  case (Some r)
  assume "attachedPoint s self ip"
  with Some have "r \<in> set (childNodes s self)"
    by (simp add: attachedPoint_def parentNode_SomeD)
  then obtain A B where AB: "childNodes s self = A @ r # B" by (auto dest: split_list)
  have "\<exists>A' B'. childNodes s self = A' @ r # B'
      \<and> childNodes s self = filter (\<lambda>x. x \<notin> set []) A' @ [] @ r # filter (\<lambda>x. x \<notin> set []) B'"
    using AB by (intro exI [of _ A] exI [of _ B]) simp
  with Some show ?thesis by (simp only: placed_def option.case)
qed

subsection \<open>Placement by the elementary insertions\<close>

lemma insertAt_Some: "r \<notin> set A \<Longrightarrow> insertAt new (Some r) (A @ r # B) = A @ new @ r # B"
  by (induction A) auto

lemma filter_notin_id: "set N \<inter> set xs = {} \<Longrightarrow> filter (\<lambda>x. x \<notin> set N) xs = xs"
  by (induction xs) auto

lemma placed_insert_detached:
  assumes ins: "insertBefore self k ip s = Inr s'" and det: "parentNode s k = None"
    and self: "self < nextNode s" and ty: "nodeType s k \<noteq> DocumentFragment"
    and dist: "distinct (childNodes s self)"
  shows "placed ip [k] (childNodes s self) (childNodes s' self)"
proof -
  have ch: "childNodes s' self = insertAt [k] ip (childNodes s self)"
    using ins det self ty by (rule childNodes_insertBefore_fresh)
  from det self have k: "k \<notin> set (childNodes s self)"
    by (auto simp add: parentNode_def find_None_iff)
  show ?thesis
  proof (cases ip)
    case None
    from k have "filter (\<lambda>x. x \<notin> set [k]) (childNodes s self) = childNodes s self"
      by (intro filter_notin_id) simp
    with ch None show ?thesis by (simp add: placed_def del: set_simps)
  next
    case (Some r)
    with ins have "r \<in> set (childNodes s self)"
      by (auto simp add: insertBefore_def split: if_splits)
    then obtain A B where AB: "childNodes s self = A @ r # B" by (auto dest: split_list)
    with dist have r: "r \<notin> set A" by simp
    from AB k have kA: "set [k] \<inter> set A = {}" and kB: "set [k] \<inter> set B = {}"
      by auto
    have "filter (\<lambda>x. x \<notin> set [k]) A = A" "filter (\<lambda>x. x \<notin> set [k]) B = B"
      by (rule filter_notin_id [OF kA], rule filter_notin_id [OF kB])
    then have "childNodes s self = A @ r # B
        \<and> childNodes s' self = filter (\<lambda>x. x \<notin> set [k]) A @ [k] @ r # filter (\<lambda>x. x \<notin> set [k]) B"
      using ch AB r Some by (simp add: insertAt_Some del: set_simps)
    then show ?thesis unfolding placed_def Some by (simp only: option.case) blast
  qed
qed

lemma placed_insert_node:
  assumes ins: "insertBefore self n ip s = Inr s'" and wf: "wf s" and el: "instanceofElement s self"
    and n: "instanceofElement s n \<or> instanceofDocumentFragment s n"
    and ap: "attachedPoint s self ip"
  shows "placed ip (movedNodes s n) (childNodes s self) (childNodes s' self)"
    and "set (movedNodes s n) \<subseteq> movable s"
proof -
  let ?M = "movedNodes s n"
  show mv: "set ?M \<subseteq> movable s"
    using n by (auto simp add: movedNodes_def movable_def instanceofElement_def instanceofDocumentFragment_def)
  have dist: "distinct (childNodes s self)"
    using wf el by (simp add: wf_distinct instanceofElement_less)
  show "placed ip ?M (childNodes s self) (childNodes s' self)"
  proof (cases ip)
    case None
    with ins show ?thesis
      by (auto simp add: insertBefore_def fold_removeNode Let_def placed_def split: if_splits)
  next
    case (Some r)
    with ap have r: "r \<in> set (childNodes s self)" "isComment s r"
      by (simp_all add: attachedPoint_def parentNode_SomeD)
    then have "nodeType s r \<noteq> Element" by (auto simp add: isComment_def)
    with wf el r(1) have "r \<notin> movable s" by (rule comment_child_not_movable)
    with mv have rM: "r \<notin> set ?M" by auto
    from r(2) n have rn: "r \<noteq> n"
      by (auto simp add: isComment_def instanceofElement_def instanceofDocumentFragment_def)
    from r(1) obtain A B where AB: "childNodes s self = A @ r # B" by (auto dest: split_list)
    with dist have rA: "r \<notin> set A" by simp
    have "childNodes s' self = insertAt ?M (Some r) (filter (\<lambda>x. x \<notin> set ?M) (childNodes s self))"
      using ins Some rn
      by (auto simp add: insertBefore_def fold_removeNode Let_def split: if_splits)
    also have "\<dots> = insertAt ?M (Some r) (filter (\<lambda>x. x \<notin> set ?M) A @ r # filter (\<lambda>x. x \<notin> set ?M) B)"
      using AB rM by simp
    also have "\<dots> = filter (\<lambda>x. x \<notin> set ?M) A @ ?M @ r # filter (\<lambda>x. x \<notin> set ?M) B"
      using rA by (intro insertAt_Some) simp
    finally show ?thesis
      unfolding placed_def Some using AB by (simp only: option.case) blast
  qed
qed

lemma getNodesBetween_eq:
  assumes "childNodes s self = A @ st # old @ en # B" and "distinct (childNodes s self)"
    and "self < nextNode s" and "wf s"
  shows "getNodesBetween s st en = Inr old"
    and "parentNode s st = Some self" and "parentNode s en = Some self"
proof -
  show p: "parentNode s st = Some self" "parentNode s en = Some self"
    using assms by (simp_all add: wf_parentNode)
  from assms(1,2) have st: "st \<notin> set A" and en: "en \<notin> set old" by auto
  then have "dropWhile (\<lambda>x. x \<noteq> st) (childNodes s self) = st # old @ en # B"
    using assms(1) by (auto simp add: dropWhile_append3)
  then have ns: "nextSiblings s st = old @ en # B"
    using p by (simp add: nextSiblings_def)
  have "collectUntil en acc (old @ en # B) = Inr (acc @ old)" for acc
    using en by (induction old arbitrary: acc) auto
  then show "getNodesBetween s st en = Inr old"
    using p ns by (simp add: getNodesBetween_def)
qed

lemma placed_Some_mem: "placed (Some r) N xs xs' \<Longrightarrow> r \<in> set xs'"
  by (auto simp add: placed_def)

lemma attachedPoint_edits:
  assumes "edits self s s'" and "wf s" and "instanceofElement s self" and "attachedPoint s self ip"
    and "placed ip N xs (childNodes s' self)"
  shows "attachedPoint s' self ip"
proof (cases ip)
  case None
  then show ?thesis by (simp add: attachedPoint_def)
next
  case (Some r)
  with assms(5) have "r \<in> set (childNodes s' self)" by (simp add: placed_Some_mem)
  moreover have "wf s'" using assms(1,2) by (rule wf_edits)
  moreover have "self < nextNode s'"
    using edits_instanceofElement [OF assms(1,3)] by (rule instanceofElement_less)
  ultimately have "parentNode s' r = Some self" by (simp add: wf_parentNode)
  moreover have "r < nextNode s"
    using assms(2,3,4) Some
    by (auto simp add: attachedPoint_def instanceofElement_def dest!: parentNode_SomeD intro: wf_child_less)
  then have "isComment s' r = isComment s r"
    using edits_nodeType [OF assms(1)] by (simp add: isComment_def)
  ultimately show ?thesis using assms(4) Some by (simp add: attachedPoint_def)
qed

subsection \<open>append puts its nodes immediately before the insertion point\<close>

lemma placedBy_refl: "attachedPoint s self ip \<Longrightarrow> placedBy s self ip s"
  unfolding placedBy_def by (rule exI [of _ "[]"]) (simp add: placed_Nil)

lemma placedBy_same:
  "placedBy s self ip s1 \<Longrightarrow> childNodes s2 self = childNodes s1 self \<Longrightarrow> placedBy s self ip s2"
  by (simp add: placedBy_def)

lemma placedBy_trans:
  assumes "placedBy s self ip s1" and "placedBy s1 self ip s2" and "movable s1 \<subseteq> movable s"
    and "distinct (childNodes s1 self)"
  shows "placedBy s self ip s2"
proof -
  from assms(1) obtain N1 where 1: "set N1 \<subseteq> movable s" "placed ip N1 (childNodes s self) (childNodes s1 self)"
    by (auto simp add: placedBy_def)
  from assms(2) obtain N2 where 2: "set N2 \<subseteq> movable s1" "placed ip N2 (childNodes s1 self) (childNodes s2 self)"
    by (auto simp add: placedBy_def)
  have "placed ip (filter (\<lambda>x. x \<notin> set N2) N1 @ N2) (childNodes s self) (childNodes s2 self)"
    using 1(2) 2(2) assms(4) by (rule placed_trans)
  moreover have "set (filter (\<lambda>x. x \<notin> set N2) N1 @ N2) \<subseteq> movable s"
    using 1(1) 2(1) assms(3) by auto
  ultimately show ?thesis unfolding placedBy_def by blast
qed

lemma attached_not_detached:
  "attachedPoint s self ip \<Longrightarrow> instanceofElement s self \<Longrightarrow> \<not> detachedPoint self ip s"
  by (auto simp add: attachedPoint_def detachedPoint_def parentElement_def instanceofElement_def
      split: option.splits)

lemma placedBy_create_insert:
  assumes wf: "wf s" and el: "instanceofElement s self" and ap: "attachedPoint s self ip"
    and ty: "ty = Text tx \<or> ty = Comment tx"
  shows "placedBy s self ip (snd (createNode ty s))"
    and "insertBefore self (nextNode s) ip (snd (createNode ty s)) = Inr s2 \<Longrightarrow> placedBy s self ip s2"
proof -
  let ?s1 = "snd (createNode ty s)"
  have self: "self < nextNode s" using el by (rule instanceofElement_less)
  then have c1: "childNodes ?s1 self = childNodes s self" by simp
  show "placedBy s self ip ?s1"
    using placedBy_refl [OF ap] c1 by (rule placedBy_same)
  assume ins: "insertBefore self (nextNode s) ip ?s1 = Inr s2"
  have "placed ip [nextNode s] (childNodes ?s1 self) (childNodes s2 self)"
  proof (rule placed_insert_detached [OF ins])
    show "parentNode ?s1 (nextNode s) = None" using wf by (simp add: wf_fresh_parentNode)
    show "self < nextNode ?s1" using self by simp
    show "nodeType ?s1 (nextNode s) \<noteq> DocumentFragment" using ty by auto
    show "distinct (childNodes ?s1 self)" using wf self c1 by (simp add: wf_distinct)
  qed
  then have "placed ip [nextNode s] (childNodes s self) (childNodes s2 self)"
    using c1 by simp
  moreover have "set [nextNode s] \<subseteq> movable s" by (simp add: movable_def)
  ultimately show "placedBy s self ip s2" unfolding placedBy_def by blast
qed


lemma bookends_placed:
  assumes wf: "wf s" and el: "instanceofElement s self"
    and s1: "s1 = snd (createComment b s)" and s2: "s2 = snd (createComment e s1)"
    and i3: "insertBefore self (nextNode s) ip s2 = Inr s3"
    and i4: "insertBefore self (Suc (nextNode s)) ip s3 = Inr s4"
  shows "placed ip [nextNode s, Suc (nextNode s)] (childNodes s self) (childNodes s4 self)"
proof -
  let ?st = "nextNode s" and ?en = "Suc (nextNode s)"
  have self: "self < nextNode s" using el by (rule instanceofElement_less)
  have wf2: "wf s2" using wf s1 s2 by (simp add: createComment_def wf_createNode)
  have n2: "nextNode s2 = Suc (Suc (nextNode s))" using s1 s2 by (simp add: createComment_def)
  have c2: "childNodes s2 self = childNodes s self" using s1 s2 self by (simp add: createComment_def)
  have ty2: "nodeType s2 ?st = Comment b" "nodeType s2 ?en = Comment e"
    using s1 s2 by (simp_all add: createComment_def)
  have p2: "parentNode s2 ?st = None" "parentNode s2 ?en = None"
    using s1 s2 wf by (simp_all add: createComment_def wf_fresh_parentNode)
  have 3: "placed ip [?st] (childNodes s2 self) (childNodes s3 self)"
    using i3 p2(1) self n2 ty2 wf2 by (intro placed_insert_detached) (auto simp add: wf_distinct)
  note I3 = insertBefore_Inr [OF i3]
  have wf3: "wf s3" using wf2 i3 self n2 by (auto intro: wf_insertBefore)
  have p3: "parentNode s3 ?en = None"
    using parentNode_insertBefore_other [OF i3, of ?en] ty2 p2 by (simp add: movedNodes_def)
  have 4: "placed ip [?en] (childNodes s3 self) (childNodes s4 self)"
    using i4 p3 self n2 ty2 wf3 I3(2) I3(3)
    by (intro placed_insert_detached) (auto simp add: wf_distinct)
  have "placed ip (filter (\<lambda>x. x \<notin> set [?en]) [?st] @ [?en]) (childNodes s2 self) (childNodes s4 self)"
    using 3 4 wf3 self n2 I3(2) by (intro placed_trans) (auto simp add: wf_distinct)
  then show ?thesis using c2 by simp
qed

lemma observer_placed:
  assumes wf: "wf s" and el: "instanceofElement s self" and ap: "attachedPoint s self ip"
    and pl: "placed ip [st, en] (childNodes s self) (childNodes s6 self)"
    and fresh: "nextNode s \<le> st" "nextNode s \<le> en"
    and mv: "movable s6 \<subseteq> movable s"
    and wf6: "wf s6" and el6: "instanceofElement s6 self" and ap6: "attachedPoint s6 self ip"
    and run: "\<forall>A old B. childNodes s6 self = A @ st # old @ en # B \<longrightarrow>
       (\<exists>N. set N \<subseteq> movable s6 \<and>
          childNodes s7 self = filter (\<lambda>x. x \<notin> set N) A @ st # N @ en # filter (\<lambda>x. x \<notin> set N) B)"
  shows "placedBy s self ip s7"
proof (cases ip)
  case None
  let ?A = "filter (\<lambda>x. x \<notin> set [st, en]) (childNodes s self)"
  from pl None have c6: "childNodes s6 self = ?A @ st # [] @ en # []"
    by (simp add: placed_def)
  with run obtain N where N: "set N \<subseteq> movable s6"
    "childNodes s7 self = filter (\<lambda>x. x \<notin> set N) ?A @ st # N @ en # filter (\<lambda>x. x \<notin> set N) []"
    by blast
  have "filter (\<lambda>x. x \<notin> set N) ?A = filter (\<lambda>x. x \<notin> set (st # N @ [en])) (childNodes s self)"
    by (induction "childNodes s self") auto
  with N(2) have "placed None (st # N @ [en]) (childNodes s self) (childNodes s7 self)"
    by (simp add: placed_def)
  moreover have "set (st # N @ [en]) \<subseteq> movable s"
    using N(1) mv fresh by (auto simp add: movable_def)
  ultimately show ?thesis unfolding placedBy_def None by blast
next
  case (Some r)
  let ?f = "filter (\<lambda>x. x \<notin> set [st, en])"
  from pl Some obtain A B where AB: "childNodes s self = A @ r # B"
    "childNodes s6 self = ?f A @ [st, en] @ r # ?f B"
    by (auto simp add: placed_def)
  then have c6: "childNodes s6 self = ?f A @ st # [] @ en # (r # ?f B)" by simp
  with run obtain N where N: "set N \<subseteq> movable s6"
    "childNodes s7 self = filter (\<lambda>x. x \<notin> set N) (?f A) @ st # N @ en # filter (\<lambda>x. x \<notin> set N) (r # ?f B)"
    by blast
  have "r \<in> set (childNodes s6 self)" using AB(2) by simp
  moreover have "nodeType s6 r \<noteq> Element"
    using ap6 Some by (auto simp add: attachedPoint_def isComment_def)
  ultimately have "r \<notin> movable s6" using wf6 el6 by (intro comment_child_not_movable)
  with N(1) have rN: "r \<notin> set N" by auto
  have f: "filter (\<lambda>x. x \<notin> set N) (?f xs) = filter (\<lambda>x. x \<notin> set (st # N @ [en])) xs" for xs
    by (induction xs) auto
  have "childNodes s7 self = filter (\<lambda>x. x \<notin> set (st # N @ [en])) A @ (st # N @ [en]) @ r
      # filter (\<lambda>x. x \<notin> set (st # N @ [en])) B"
    using N(2) rN by (simp add: f)
  with AB(1) have "placed (Some r) (st # N @ [en]) (childNodes s self) (childNodes s7 self)"
    unfolding placed_def by (simp only: option.case) blast
  moreover have "set (st # N @ [en]) \<subseteq> movable s"
    using N(1) mv fresh by (auto simp add: movable_def)
  ultimately show ?thesis unfolding placedBy_def Some by blast
qed

lemma rerender_placed:
  assumes wf: "wf s" and el: "instanceofElement s self"
    and st: "isComment s st" and en: "isComment s en"
    and c: "childNodes s self = A @ st # old @ en # B"
    and ih: "\<And>s1. s1 = fold removeNode old s \<Longrightarrow> wf s1 \<Longrightarrow> instanceofElement s1 self
        \<Longrightarrow> attachedPoint s1 self (Some en) \<Longrightarrow> placedBy s1 self (Some en) (snd (appendEl self v (Some en) s1))"
  shows "\<exists>N. set N \<subseteq> movable s \<and>
          childNodes (snd (metaObserverRun self st en v s)) self
            = filter (\<lambda>x. x \<notin> set N) A @ st # N @ en # filter (\<lambda>x. x \<notin> set N) B"
proof -
  have self: "self < nextNode s" using el by (rule instanceofElement_less)
  have dist: "distinct (childNodes s self)" using wf self by (rule wf_distinct)
  note g = getNodesBetween_eq [OF c dist self wf]
  define s1 where "s1 = fold removeNode old s"
  have e1: "edits self s s1"
    unfolding s1_def using dist c by (intro edits_fold_removeNode) auto
  have wf1: "wf s1" using e1 wf by (rule wf_edits)
  have el1: "instanceofElement s1 self" using e1 el by (rule edits_instanceofElement)
  have c1: "childNodes s1 self = A @ st # en # B"
  proof -
    from dist have "set old \<inter> set A = {}" "set old \<inter> set B = {}" "st \<notin> set old" "en \<notin> set old"
      unfolding c by auto
    then have "filter (\<lambda>x. x \<notin> set old) (A @ st # old @ en # B) = A @ st # en # B"
      by (simp add: filter_notin_id)
    then show ?thesis by (simp add: s1_def fold_removeNode c)
  qed
  have ty1: "nodeType s1 = nodeType s" by (simp add: s1_def fold_removeNode)
  have ap1: "attachedPoint s1 self (Some en)"
    using wf1 el1 c1 en ty1 by (simp add: attachedPoint_def wf_parentNode instanceofElement_less isComment_def)
  define s' where "s' = snd (appendEl self v (Some en) s1)"
  have "placedBy s1 self (Some en) s'"
    unfolding s'_def using s1_def wf1 el1 ap1 by (rule ih)
  then obtain N A1 B1 where N: "set N \<subseteq> movable s1" "childNodes s1 self = A1 @ en # B1"
    "childNodes s' self = filter (\<lambda>x. x \<notin> set N) A1 @ N @ en # filter (\<lambda>x. x \<notin> set N) B1"
    by (auto simp add: placedBy_def placed_def)
  have d1: "distinct (childNodes s1 self)" using wf1 el1 by (simp add: wf_distinct instanceofElement_less)
  have "(A @ [st]) @ en # B = A1 @ en # B1" using c1 N(2) by simp
  moreover have "distinct ((A @ [st]) @ en # B)" using d1 c1 by simp
  ultimately have AB: "A1 = A @ [st]" "B1 = B" using split_unique [of "A @ [st]" en B A1 B1] by simp_all
  have "st \<in> set (childNodes s1 self)" using c1 by simp
  moreover have "nodeType s1 st \<noteq> Element" using st ty1 by (auto simp add: isComment_def)
  ultimately have "st \<notin> movable s1" using wf1 el1 by (intro comment_child_not_movable)
  with N(1) have "st \<notin> set N" by auto
  with N(3) AB have r: "childNodes s' self = filter (\<lambda>x. x \<notin> set N) A @ st # N @ en # filter (\<lambda>x. x \<notin> set N) B"
    by simp
  have "snd (metaObserverRun self st en v s) = s'"
    using g by (simp add: s'_def s1_def split: prod.splits sum.splits)
  moreover have "set N \<subseteq> movable s" using N(1) movable_mono [OF e1 el] by auto
  ultimately show ?thesis using r by blast
qed


lemma forEachAppend_edits:
  "wf s \<Longrightarrow> instanceofElement s self \<Longrightarrow> edits self s (snd (forEachAppend self cs ip s))"
  by (simp add: appendEl_edits_aux)

lemma placedBy_attached:
  assumes "placedBy s self ip s'" and "edits self s s'" and "wf s" and "instanceofElement s self"
    and "attachedPoint s self ip"
  shows "attachedPoint s' self ip"
  using assms by (auto simp add: placedBy_def intro: attachedPoint_edits)

lemma placement_aux:
  "wf s \<longrightarrow> instanceofElement s self \<longrightarrow> attachedPoint s self ip
     \<longrightarrow> placedBy s self ip (snd (appendEl self c ip s))"
  "wf s \<longrightarrow> instanceofElement s self \<longrightarrow> attachedPoint s self ip
     \<longrightarrow> placedBy s self ip (snd (forEachAppend self cs ip s))"
  "wf s \<longrightarrow> instanceofElement s self \<longrightarrow> isComment s st \<longrightarrow> isComment s en
     \<longrightarrow> (\<forall>A old B. childNodes s self = A @ st # old @ en # B \<longrightarrow>
           (\<exists>N. set N \<subseteq> movable s \<and>
              childNodes (snd (metaObserverRun self st en v s)) self
                = filter (\<lambda>x. x \<notin> set N) A @ st # N @ en # filter (\<lambda>x. x \<notin> set N) B))"
proof (induction self c ip s and self cs ip s and self st en v s
    rule: appendEl_forEachAppend_metaObserverRun.induct)
  case (1 self insertionPoint s)
  then show ?case by (simp add: placedBy_refl)
next
  case (2 self insertionPoint s)
  then show ?case by (simp add: placedBy_refl)
next
  case (3 self tx insertionPoint s)
  show ?case
    using placedBy_create_insert [of s self insertionPoint "Text tx" tx]
    by (auto simp add: createTextNode_def split_beta placedBy_refl split: sum.splits)
next
  case (4 self n insertionPoint s)
  show ?case
  proof (intro impI)
    assume wf: "wf s" and el: "instanceofElement s self" and ap: "attachedPoint s self insertionPoint"
    note r = placedBy_refl [OF ap]
    show "placedBy s self insertionPoint (snd (appendEl self (NodeRef n) insertionPoint s))"
    proof (cases "insertBefore self n insertionPoint s")
      case (Inl e)
      with r show ?thesis by simp
    next
      case (Inr s1)
      show ?thesis
      proof (cases "instanceofElement s n \<or> instanceofDocumentFragment s n")
        case True
        from placed_insert_node [OF Inr wf el True ap]
        have "placedBy s self insertionPoint s1" unfolding placedBy_def by blast
        with r True Inr show ?thesis by simp
      next
        case False
        with r show ?thesis by simp
      qed
    qed
  qed
next
  case (5 self p insertionPoint s)
  show ?case
  proof (intro impI)
    assume wf: "wf s" and el: "instanceofElement s self" and ap: "attachedPoint s self insertionPoint"
    note ci = placedBy_create_insert [OF wf el ap, of "Comment ''promisePlaceholder''" "''promisePlaceholder''"]
    show "placedBy s self insertionPoint (snd (appendEl self (PromiseRef p) insertionPoint s))"
    proof (cases "insertBefore self (nextNode s) insertionPoint (snd (createNode (Comment ''promisePlaceholder'') s))")
      case (Inl e)
      with ci(1) show ?thesis
        by (simp add: createComment_def split_beta placedBy_refl [OF ap])
    next
      case (Inr s2)
      then have "placedBy s self insertionPoint s2" using ci(2) by simp
      then have "placedBy s self insertionPoint (s2\<lparr>thens := thens s2 @ [(p, self, nextNode s)]\<rparr>)"
        by (rule placedBy_same) simp
      with Inr show ?thesis
        by (simp add: createComment_def split_beta placedBy_refl [OF ap])
    qed
  qed
next
  case (6 self u v insertionPoint s)
  show ?case
  proof (intro impI)
    assume wf: "wf s" and el: "instanceofElement s self" and ap: "attachedPoint s self insertionPoint"
    have nd: "\<not> detachedPoint self insertionPoint s" using ap el by (rule attached_not_detached)
    have self: "self < nextNode s" using el by (rule instanceofElement_less)
    obtain s1 where s1: "s1 = snd (createComment ''observerStart'' s)" by simp
    obtain s2 where s2: "s2 = snd (createComment ''observerEnd'' s1)" by simp
    have f1: "createComment ''observerStart'' s = (nextNode s, s1)"
      using s1 by (simp add: createComment_def createNode_def)
    have f2: "createComment ''observerEnd'' s1 = (Suc (nextNode s), s2)"
      using s1 s2 by (simp add: createComment_def createNode_def)
    have c2: "childNodes s2 self = childNodes s self" using s1 s2 self by (simp add: createComment_def)
    have r2: "placedBy s self insertionPoint s2"
      using placedBy_refl [OF ap] c2 by (rule placedBy_same)
    show "placedBy s self insertionPoint (snd (appendEl self (ObserverRef u v) insertionPoint s))"
    proof (cases "insertBefore self (nextNode s) insertionPoint s2")
      case (Inl e)
      with nd f1 f2 r2 show ?thesis by simp
    next
      case i3: (Inr s3)
      have r3: "placedBy s self insertionPoint s3"
        using placedBy_create_insert(2) [OF wf el ap, of "Comment ''observerStart''" "''observerStart''" s3]
      proof -
        have wf1: "wf s1" using wf s1 by (simp add: createComment_def wf_createNode)
        have wf2: "wf s2" using wf1 s2 by (simp add: createComment_def wf_createNode)
        have "placed insertionPoint [nextNode s] (childNodes s2 self) (childNodes s3 self)"
          using i3 wf2 self s1 s2 wf
          by (intro placed_insert_detached)
            (auto simp add: createComment_def wf_fresh_parentNode wf_distinct)
        then have "placed insertionPoint [nextNode s] (childNodes s self) (childNodes s3 self)"
          using c2 by simp
        moreover have "set [nextNode s] \<subseteq> movable s" by (simp add: movable_def)
        ultimately show ?thesis unfolding placedBy_def by blast
      qed
      show ?thesis
      proof (cases "insertBefore self (Suc (nextNode s)) insertionPoint s3")
        case (Inl e)
        with nd f1 f2 i3 r3 show ?thesis by simp
      next
        case i4: (Inr s4)
        let ?st = "nextNode s" and ?en = "Suc (nextNode s)"
        let ?s6 = "(registerTrio ?st ?en u s4)
              \<lparr>metaObservers := metaObservers (registerTrio ?st ?en u s4) @
                 [\<lparr>metaChild = u, metaSelf = self, metaStart = ?st, metaEnd = ?en\<rparr>]\<rparr>"
        have e6: "edits self s ?s6"
          using wf self s1 s2 i3 i4 by (rule bookends_edits)
        have wf6: "wf ?s6" using e6 wf by (rule wf_edits)
        have el6: "instanceofElement ?s6 self" using e6 el by (rule edits_instanceofElement)
        have c6: "childNodes ?s6 self = childNodes s4 self"
          by (simp add: registerTrio_def Let_def)
        have pl: "placed insertionPoint [?st, ?en] (childNodes s self) (childNodes ?s6 self)"
          unfolding c6 using wf el s1 s2 i3 i4 by (rule bookends_placed)
        have ap6: "attachedPoint ?s6 self insertionPoint"
          using e6 wf el ap pl by (rule attachedPoint_edits)
        have ty6: "isComment ?s6 ?st" "isComment ?s6 ?en"
          using insertBefore_Inr(3) [OF i3] insertBefore_Inr(3) [OF i4] s1 s2
          by (simp_all add: isComment_def registerTrio_def Let_def createComment_def)
        obtain r s7 where m: "metaObserverRun self ?st ?en v ?s6 = (r, s7)" by force
        have run: "\<forall>A old B. childNodes ?s6 self = A @ ?st # old @ ?en # B \<longrightarrow>
           (\<exists>N. set N \<subseteq> movable ?s6 \<and>
              childNodes s7 self = filter (\<lambda>x. x \<notin> set N) A @ ?st # N @ ?en # filter (\<lambda>x. x \<notin> set N) B)"
          using 6 [OF nd f1 [symmetric] refl f2 [symmetric] refl i3 i4 refl refl] wf6 el6 ty6 m
          by simp
        have "placedBy s self insertionPoint s7"
          using wf el ap pl _ _ movable_mono [OF e6 el] wf6 el6 ap6 run
          by (rule observer_placed) simp_all
        then have "placedBy s self insertionPoint (kickoff self u s7)"
          by (rule placedBy_same)
            (simp add: kickoff_def observerStart_def observerStop_def setArgsContext_def
              setThisContext_def Let_def)
        moreover from \<open>placedBy s self insertionPoint s7\<close> have "placedBy s self insertionPoint s7" .
        ultimately show ?thesis
          using nd f1 f2 i3 i4 m by (cases r) (simp_all add: Let_def)
      qed
    qed
  qed
next
  case (7 self result insertionPoint s)
  then show ?case
    by (auto simp add: placedBy_refl split: prod.splits sum.splits)
next
  case (8 self grandChildren insertionPoint s)
  then show ?case
    by (auto simp add: placedBy_refl split: prod.splits sum.splits)
next
  case (9 self insertionPoint s)
  then show ?case by (simp add: placedBy_refl)
next
  case (10 self insertionPoint s)
  then show ?case by (simp add: placedBy_refl)
next
  case (11 self grandChild rest insertionPoint s)
  show ?case
  proof (intro impI)
    assume wf: "wf s" and el: "instanceofElement s self" and ap: "attachedPoint s self insertionPoint"
    obtain r s1 where a: "appendEl self grandChild insertionPoint s = (r, s1)" by force
    have p1: "placedBy s self insertionPoint s1" using 11(1) wf el ap a by simp
    have e1: "edits self s s1" using appendEl_edits [OF wf el, of grandChild insertionPoint] a by simp
    show "placedBy s self insertionPoint (snd (forEachAppend self (grandChild # rest) insertionPoint s))"
    proof (cases r)
      case (Inl e)
      with a p1 show ?thesis by simp
    next
      case (Inr b)
      have wf1: "wf s1" using e1 wf by (rule wf_edits)
      have el1: "instanceofElement s1 self" using e1 el by (rule edits_instanceofElement)
      have ap1: "attachedPoint s1 self insertionPoint" using p1 e1 wf el ap by (rule placedBy_attached)
      have p2: "placedBy s1 self insertionPoint (snd (forEachAppend self rest insertionPoint s1))"
        using 11(2) [OF a [symmetric] Inr] wf1 el1 ap1 by simp
      have d1: "distinct (childNodes s1 self)"
        using wf1 el1 by (simp add: wf_distinct instanceofElement_less)
      have "placedBy s self insertionPoint (snd (forEachAppend self rest insertionPoint s1))"
        using p1 p2 movable_mono [OF e1 el] d1 by (rule placedBy_trans)
      with a Inr show ?thesis by simp
    qed
  qed
next
  case (12 self observerStartNode observerEndNode result s)
  show ?case
  proof (intro impI allI)
    fix A old B
    assume wf: "wf s" and el: "instanceofElement s self"
      and st: "isComment s observerStartNode" and en: "isComment s observerEndNode"
      and c: "childNodes s self = A @ observerStartNode # old @ observerEndNode # B"
    have self: "self < nextNode s" using el by (rule instanceofElement_less)
    have dist: "distinct (childNodes s self)" using wf self by (rule wf_distinct)
    note g = getNodesBetween_eq [OF c dist self wf]
    show "\<exists>N. set N \<subseteq> movable s \<and>
          childNodes (snd (metaObserverRun self observerStartNode observerEndNode result s)) self
            = filter (\<lambda>x. x \<notin> set N) A @ observerStartNode # N @ observerEndNode # filter (\<lambda>x. x \<notin> set N) B"
      using wf el st en c
    proof (rule rerender_placed)
      fix s1
      assume "s1 = fold removeNode old s" "wf s1" "instanceofElement s1 self"
        "attachedPoint s1 self (Some observerEndNode)"
      then show "placedBy s1 self (Some observerEndNode) (snd (appendEl self result (Some observerEndNode) s1))"
        using 12 [OF conjI [OF g(2) g(3)] g(1)] by simp
    qed
  qed
qed

subsection \<open>Appending text\<close>

lemma ancestors_are_parents: "a \<in> set (ancestors k s m) \<Longrightarrow> childNodes s a \<noteq> []"
proof (induction k arbitrary: m)
  case 0
  then show ?case by simp
next
  case (Suc k)
  then show ?case
    by (cases "parentNode s m") (auto dest: parentNode_SomeD)
qed

lemma insertBefore_detached_succeeds:
  assumes "childNodes s k = []" and "k \<noteq> self"
    and "case ref of None \<Rightarrow> True | Some r \<Rightarrow> r \<in> set (childNodes s self)"
    and "nodeType s self = Element" and "nodeType s k \<noteq> Document"
  shows "\<exists>s'. insertBefore self k ref s = Inr s'"
proof -
  have "\<not> contains s k self"
    using assms(1,2) ancestors_are_parents [of k "nextNode s" s self]
    by (auto simp add: contains_def)
  with assms(3,4,5) show ?thesis
    by (auto simp add: insertBefore_def takesChildren_def validChild_def Let_def split: option.splits)
qed

lemma attachedPoint_ref:
  "attachedPoint s self ip \<Longrightarrow> case ip of None \<Rightarrow> True | Some r \<Rightarrow> r \<in> set (childNodes s self)"
  by (auto simp add: attachedPoint_def split: option.splits dest: parentNode_SomeD)

lemma appendEl_Str:
  assumes wf: "wf s" and el: "instanceofElement s self" and ap: "attachedPoint s self ip"
  shows "fst (appendEl self (Str t) ip s) = Inr True"
    and "placed ip [nextNode s] (childNodes s self) (childNodes (snd (appendEl self (Str t) ip s)) self)"
    and "nodeType (snd (appendEl self (Str t) ip s)) (nextNode s) = Text t"
    and "nextNode (snd (appendEl self (Str t) ip s)) = Suc (nextNode s)"
proof -
  let ?s1 = "snd (createNode (Text t) s)"
  have self: "self < nextNode s" using el by (rule instanceofElement_less)
  have nd: "\<not> detachedPoint self ip s" using ap el by (rule attached_not_detached)
  have c1: "childNodes ?s1 self = childNodes s self" using self by simp
  have "case ip of None \<Rightarrow> True | Some r \<Rightarrow> r \<in> set (childNodes ?s1 self)"
    using attachedPoint_ref [OF ap] unfolding c1 .
  then obtain s2 where ins: "insertBefore self (nextNode s) ip ?s1 = Inr s2"
    using insertBefore_detached_succeeds [of ?s1 "nextNode s" self ip] self el
    by (auto simp add: instanceofElement_def)
  have r: "appendEl self (Str t) ip s = (Inr True, s2)"
    using nd ins by (simp add: createTextNode_def split_beta)
  show "fst (appendEl self (Str t) ip s) = Inr True" using r by simp
  have "placed ip [nextNode s] (childNodes ?s1 self) (childNodes s2 self)"
    using ins wf self c1
    by (intro placed_insert_detached) (auto simp add: wf_fresh_parentNode wf_distinct)
  then show "placed ip [nextNode s] (childNodes s self) (childNodes (snd (appendEl self (Str t) ip s)) self)"
    using r c1 by simp
  show "nodeType (snd (appendEl self (Str t) ip s)) (nextNode s) = Text t"
    using r insertBefore_Inr(3) [OF ins] by simp
  show "nextNode (snd (appendEl self (Str t) ip s)) = Suc (nextNode s)"
    using r insertBefore_Inr(2) [OF ins] by simp
qed

lemma detached_appendEl: "detachedPoint self ip s \<Longrightarrow> appendEl self c ip s = (Inr False, s)"
  by (cases c) simp_all

lemma appendEl_placedBy:
  "wf s \<Longrightarrow> instanceofElement s self \<Longrightarrow> attachedPoint s self ip
   \<Longrightarrow> placedBy s self ip (snd (appendEl self c ip s))"
  by (simp add: placement_aux)


subsection \<open>Re-rendering a region\<close>

lemma rerender_unfold:
  assumes wf: "wf s" and el: "instanceofElement s self"
    and en: "isComment s en"
    and c: "childNodes s self = A @ st # old @ en # B"
  shows "metaObserverRun self st en v s =
           (case appendEl self v (Some en) (fold removeNode old s) of
              (Inl e, s') \<Rightarrow> (Inl e, s') | (Inr _, s') \<Rightarrow> (Inr (), s'))"
    and "edits self s (fold removeNode old s)"
    and "childNodes (fold removeNode old s) self = A @ st # en # B"
    and "attachedPoint (fold removeNode old s) self (Some en)"
    and "nextNode (fold removeNode old s) = nextNode s"
    and "nodeType (fold removeNode old s) = nodeType s"
proof -
  have self: "self < nextNode s" using el by (rule instanceofElement_less)
  have dist: "distinct (childNodes s self)" using wf self by (rule wf_distinct)
  note g = getNodesBetween_eq [OF c dist self wf]
  let ?s1 = "fold removeNode old s"
  show "metaObserverRun self st en v s =
           (case appendEl self v (Some en) ?s1 of
              (Inl e, s') \<Rightarrow> (Inl e, s') | (Inr _, s') \<Rightarrow> (Inr (), s'))"
    using g by (simp split: prod.splits sum.splits)
  show e1: "edits self s ?s1"
    using dist c by (intro edits_fold_removeNode) auto
  have wf1: "wf ?s1" using e1 wf by (rule wf_edits)
  have el1: "instanceofElement ?s1 self" using e1 el by (rule edits_instanceofElement)
  show c1: "childNodes ?s1 self = A @ st # en # B"
  proof -
    from dist have "set old \<inter> set A = {}" "set old \<inter> set B = {}" "st \<notin> set old" "en \<notin> set old"
      unfolding c by auto
    then have "filter (\<lambda>x. x \<notin> set old) (A @ st # old @ en # B) = A @ st # en # B"
      by (simp add: filter_notin_id)
    then show ?thesis by (simp add: fold_removeNode c)
  qed
  show ty1: "nodeType ?s1 = nodeType s" by (simp add: fold_removeNode)
  show "nextNode ?s1 = nextNode s" by (simp add: fold_removeNode)
  show "attachedPoint ?s1 self (Some en)"
    using wf1 el1 c1 en ty1
    by (simp add: attachedPoint_def wf_parentNode instanceofElement_less isComment_def)
qed

lemma rerender_text:
  assumes wf: "wf s" and el: "instanceofElement s self"
    and st: "isComment s st" and en: "isComment s en"
    and c: "childNodes s self = A @ st # old @ en # B"
  shows "fst (metaObserverRun self st en (Str t) s) = Inr ()"
    and "childNodes (snd (metaObserverRun self st en (Str t) s)) self = A @ st # [nextNode s] @ en # B"
    and "nodeType (snd (metaObserverRun self st en (Str t) s)) (nextNode s) = Text t"
    and "wf (snd (metaObserverRun self st en (Str t) s))"
    and "instanceofElement (snd (metaObserverRun self st en (Str t) s)) self"
    and "isComment (snd (metaObserverRun self st en (Str t) s)) st"
    and "isComment (snd (metaObserverRun self st en (Str t) s)) en"
proof -
  let ?s1 = "fold removeNode old s"
  let ?r = "appendEl self (Str t) (Some en) ?s1"
  note u = rerender_unfold(1) [OF wf el en c, of "Str t"] rerender_unfold(2-6) [OF wf el en c]
  have wf1: "wf ?s1" using u(2) wf by (rule wf_edits)
  have el1: "instanceofElement ?s1 self" using u(2) el by (rule edits_instanceofElement)
  note a = appendEl_Str [OF wf1 el1 u(4), of t]
  obtain b s' where r: "?r = (Inr b, s')"
    using a(1) by (cases ?r) auto
  have m: "metaObserverRun self st en (Str t) s = (Inr (), s')"
    unfolding u(1) r by simp
  show "fst (metaObserverRun self st en (Str t) s) = Inr ()" using m by simp
  from a(2) r obtain A1 B1 where AB: "childNodes ?s1 self = A1 @ en # B1"
    "childNodes s' self = filter (\<lambda>x. x \<notin> set [nextNode ?s1]) A1 @ [nextNode ?s1] @ en # filter (\<lambda>x. x \<notin> set [nextNode ?s1]) B1"
    by (auto simp add: placed_def del: appendEl.simps)
  have d1: "distinct (childNodes ?s1 self)"
    using wf1 el1 by (simp add: wf_distinct instanceofElement_less)
  have "(A @ [st]) @ en # B = A1 @ en # B1" using u(3) AB(1) by simp
  moreover have "distinct ((A @ [st]) @ en # B)" using d1 u(3) by simp
  ultimately have A1: "A1 = A @ [st]" "B1 = B" using split_unique [of "A @ [st]" en B A1 B1] by simp_all
  have "nextNode ?s1 \<notin> set (childNodes ?s1 self)"
    using wf_child_less [OF wf1 instanceofElement_less [OF el1], of "nextNode ?s1"] by auto
  then have "set [nextNode ?s1] \<inter> set A1 = {}" "set [nextNode ?s1] \<inter> set B1 = {}"
    unfolding AB(1) by auto
  then have "filter (\<lambda>x. x \<notin> set [nextNode ?s1]) A1 = A1" "filter (\<lambda>x. x \<notin> set [nextNode ?s1]) B1 = B1"
    by (simp_all only: filter_notin_id)
  with AB(2) A1 u(5) have "childNodes s' self = A @ st # [nextNode s] @ en # B" by simp
  with m show "childNodes (snd (metaObserverRun self st en (Str t) s)) self = A @ st # [nextNode s] @ en # B"
    by simp
  show "nodeType (snd (metaObserverRun self st en (Str t) s)) (nextNode s) = Text t"
    using a(3) r m u(5) by simp
  have e: "edits self s (snd (metaObserverRun self st en (Str t) s))"
    using wf el by (rule metaObserverRun_edits)
  show "wf (snd (metaObserverRun self st en (Str t) s))" using e wf by (rule wf_edits)
  show "instanceofElement (snd (metaObserverRun self st en (Str t) s)) self"
    using e el by (rule edits_instanceofElement)
  have lt: "st < nextNode s" "en < nextNode s"
    using wf el c by (auto intro: wf_child_less [of s self] simp add: instanceofElement_less)
  show "isComment (snd (metaObserverRun self st en (Str t) s)) st"
    using st edits_nodeType [OF e lt(1)] by (simp add: isComment_def del: metaObserverRun.simps)
  show "isComment (snd (metaObserverRun self st en (Str t) s)) en"
    using en edits_nodeType [OF e lt(2)] by (simp add: isComment_def del: metaObserverRun.simps)
qed

lemma rerenders_text:
  assumes "ts \<noteq> []" and "wf s" and "instanceofElement s self"
    and "isComment s st" and "isComment s en"
    and "childNodes s self = A @ st # old @ en # B"
  shows "\<exists>k. childNodes (rerenders self st en ts s) self = A @ st # [k] @ en # B
           \<and> nodeType (rerenders self st en ts s) k = Text (last ts)
           \<and> wf (rerenders self st en ts s) \<and> instanceofElement (rerenders self st en ts s) self"
  using assms
proof (induction ts arbitrary: s old)
  case Nil
  then show ?case by simp
next
  case (Cons t ts)
  let ?s1 = "snd (metaObserverRun self st en (Str t) s)"
  note r = rerender_text [OF Cons.prems(2-6), of t]
  have u: "rerenders self st en (t # ts) s = rerenders self st en ts ?s1"
    by (simp add: rerenders_def del: metaObserverRun.simps)
  show ?case
  proof (cases "ts = []")
    case True
    then have "rerenders self st en (t # ts) s = ?s1"
      by (simp add: rerenders_def del: metaObserverRun.simps)
    with r True show ?thesis by (auto simp del: metaObserverRun.simps)
  next
    case False
    from Cons.IH [OF False r(4) r(5) r(6) r(7) r(2)] False u show ?thesis
      by (simp del: metaObserverRun.simps)
  qed
qed


lemma metaObserverRun_placed:
  assumes "wf s" and "instanceofElement s self" and "isComment s st" and "isComment s en"
    and "childNodes s self = A @ st # old @ en # B"
  shows "\<exists>N. set N \<subseteq> movable s \<and>
           childNodes (snd (metaObserverRun self st en v s)) self
             = filter (\<lambda>x. x \<notin> set N) A @ st # N @ en # filter (\<lambda>x. x \<notin> set N) B"
  using assms placement_aux(3) [of s self st en v] by blast


subsection \<open>Deferred values\<close>

lemma appendEl_PromiseRef:
  assumes wf: "wf s" and el: "instanceofElement s self" and ap: "attachedPoint s self ip"
  shows "fst (appendEl self (PromiseRef p) ip s) = Inr True"
    and "placed ip [nextNode s] (childNodes s self) (childNodes (snd (appendEl self (PromiseRef p) ip s)) self)"
    and "nodeType (snd (appendEl self (PromiseRef p) ip s)) (nextNode s) = Comment ''promisePlaceholder''"
    and "thens (snd (appendEl self (PromiseRef p) ip s)) = thens s @ [(p, self, nextNode s)]"
proof -
  let ?s1 = "snd (createNode (Comment ''promisePlaceholder'') s)"
  have self: "self < nextNode s" using el by (rule instanceofElement_less)
  have nd: "\<not> detachedPoint self ip s" using ap el by (rule attached_not_detached)
  have c1: "childNodes ?s1 self = childNodes s self" using self by simp
  have "case ip of None \<Rightarrow> True | Some r \<Rightarrow> r \<in> set (childNodes ?s1 self)"
    using attachedPoint_ref [OF ap] unfolding c1 .
  then obtain s2 where ins: "insertBefore self (nextNode s) ip ?s1 = Inr s2"
    using insertBefore_detached_succeeds [of ?s1 "nextNode s" self ip] self el
    by (auto simp add: instanceofElement_def)
  have r: "appendEl self (PromiseRef p) ip s = (Inr True, s2\<lparr>thens := thens s2 @ [(p, self, nextNode s)]\<rparr>)"
    using nd ins by (simp add: createComment_def split_beta)
  show "fst (appendEl self (PromiseRef p) ip s) = Inr True" using r by simp
  have "placed ip [nextNode s] (childNodes ?s1 self) (childNodes s2 self)"
    using ins wf self c1
    by (intro placed_insert_detached) (auto simp add: wf_fresh_parentNode wf_distinct)
  then show "placed ip [nextNode s] (childNodes s self) (childNodes (snd (appendEl self (PromiseRef p) ip s)) self)"
    using r c1 by simp
  show "nodeType (snd (appendEl self (PromiseRef p) ip s)) (nextNode s) = Comment ''promisePlaceholder''"
    using r insertBefore_Inr(3) [OF ins] by simp
  show "thens (snd (appendEl self (PromiseRef p) ip s)) = thens s @ [(p, self, nextNode s)]"
    using r insertBefore_Inr(8) [OF ins] by (simp add: createNode_def)
qed

lemma thenCallback_detached:
  "detachedPoint self (Some ph) s \<Longrightarrow> thenCallback self ph v s = (Inr (), removeNode ph s)"
  by (simp add: thenCallback_def detached_appendEl)

lemma thenCallback_returns:
  "fst (thenCallback self ph v s) = Inr () \<Longrightarrow> gone (snd (thenCallback self ph v s)) ph"
  by (auto simp add: thenCallback_def split: prod.splits sum.splits)

lemma thenCallback_attached:
  assumes wf: "wf s" and el: "instanceofElement s self" and ap: "attachedPoint s self (Some ph)"
    and c: "childNodes s self = A @ ph # B"
    and r: "fst (thenCallback self ph v s) = Inr ()"
  shows "\<exists>N. set N \<subseteq> movable s
           \<and> childNodes (snd (appendEl self v (Some ph) s)) self
                = filter (\<lambda>x. x \<notin> set N) A @ N @ ph # filter (\<lambda>x. x \<notin> set N) B
           \<and> childNodes (snd (thenCallback self ph v s)) self
                = filter (\<lambda>x. x \<notin> set N) A @ N @ filter (\<lambda>x. x \<notin> set N) B"
proof -
  let ?s1 = "snd (appendEl self v (Some ph) s)"
  have "placedBy s self (Some ph) ?s1" using wf el ap by (rule appendEl_placedBy)
  then obtain N A1 B1 where N: "set N \<subseteq> movable s" "childNodes s self = A1 @ ph # B1"
    "childNodes ?s1 self = filter (\<lambda>x. x \<notin> set N) A1 @ N @ ph # filter (\<lambda>x. x \<notin> set N) B1"
    by (auto simp add: placedBy_def placed_def)
  have d: "distinct (childNodes s self)" using wf el by (simp add: wf_distinct instanceofElement_less)
  have "A @ ph # B = A1 @ ph # B1" using c N(2) by simp
  moreover have "distinct (A @ ph # B)" using d c by simp
  ultimately have AB: "A1 = A" "B1 = B" using split_unique [of A ph B A1 B1] by simp_all
  have e: "edits self s ?s1" using wf el by (rule appendEl_edits)
  have "distinct (childNodes ?s1 self)"
    using wf_edits [OF e wf] edits_instanceofElement [OF e el]
    by (simp add: wf_distinct instanceofElement_less)
  then have "ph \<notin> set (filter (\<lambda>x. x \<notin> set N) A)" "ph \<notin> set N" "ph \<notin> set (filter (\<lambda>x. x \<notin> set N) B)"
    unfolding N(3) AB by auto
  then have "removeAll ph (filter (\<lambda>x. x \<notin> set N) A @ N @ ph # filter (\<lambda>x. x \<notin> set N) B)
      = filter (\<lambda>x. x \<notin> set N) A @ N @ filter (\<lambda>x. x \<notin> set N) B"
    by simp
  moreover have "snd (thenCallback self ph v s) = removeNode ph ?s1"
    using r by (auto simp add: thenCallback_def split: prod.splits sum.splits)
  ultimately have "childNodes (snd (thenCallback self ph v s)) self
      = filter (\<lambda>x. x \<notin> set N) A @ N @ filter (\<lambda>x. x \<notin> set N) B"
    using N(3) AB by simp
  with N(1) N(3) AB show ?thesis by blast
qed

lemma removeNode_detached_noop:
  "parentNode s ph = None \<Longrightarrow> p < nextNode s \<Longrightarrow> childNodes (removeNode ph s) p = childNodes s p"
  by (auto simp add: parentNode_def find_None_iff)


lemma thenCallback_Str:
  assumes wf: "wf s" and el: "instanceofElement s self" and ap: "attachedPoint s self (Some ph)"
    and c: "childNodes s self = A @ ph # B"
  shows "fst (thenCallback self ph (Str t) s) = Inr ()"
    and "childNodes (snd (thenCallback self ph (Str t) s)) self = A @ [nextNode s] @ B"
    and "nodeType (snd (thenCallback self ph (Str t) s)) (nextNode s) = Text t"
proof -
  let ?s1 = "snd (appendEl self (Str t) (Some ph) s)"
  note a = appendEl_Str [OF wf el ap, of t]
  obtain b s1 where r: "appendEl self (Str t) (Some ph) s = (Inr b, s1)"
    using a(1) by (cases "appendEl self (Str t) (Some ph) s") auto
  have "thenCallback self ph (Str t) s = (Inr (), removeNode ph s1)"
    unfolding thenCallback_def r by simp
  moreover have "s1 = ?s1" unfolding r by simp
  ultimately have tc: "thenCallback self ph (Str t) s = (Inr (), removeNode ph ?s1)"
    by (simp only:)
  show "fst (thenCallback self ph (Str t) s) = Inr ()" using tc by simp
  from a(2) obtain A1 B1 where AB: "childNodes s self = A1 @ ph # B1"
    "childNodes ?s1 self = filter (\<lambda>x. x \<notin> set [nextNode s]) A1 @ [nextNode s] @ ph # filter (\<lambda>x. x \<notin> set [nextNode s]) B1"
    by (auto simp add: placed_def del: appendEl.simps)
  have d: "distinct (childNodes s self)" using wf el by (simp add: wf_distinct instanceofElement_less)
  have "A @ ph # B = A1 @ ph # B1" using c AB(1) by simp
  moreover have "distinct (A @ ph # B)" using d c by simp
  ultimately have A1: "A1 = A" "B1 = B" using split_unique [of A ph B A1 B1] by simp_all
  have k: "nextNode s \<notin> set (childNodes s self)"
    using wf_child_less [OF wf instanceofElement_less [OF el], of "nextNode s"] by auto
  then have kA: "set [nextNode s] \<inter> set A = {}" and kB: "set [nextNode s] \<inter> set B = {}"
    and kp: "nextNode s \<noteq> ph"
    unfolding c by auto
  have fA: "filter (\<lambda>x. x \<notin> set [nextNode s]) A = A"
    using kA by (rule filter_notin_id)
  have fB: "filter (\<lambda>x. x \<notin> set [nextNode s]) B = B"
    using kB by (rule filter_notin_id)
  have pA: "ph \<notin> set A" and pB: "ph \<notin> set B" using d c by auto
  have c1: "childNodes ?s1 self = A @ [nextNode s] @ ph # B"
    using AB(2) unfolding A1 fA fB .
  have "removeAll ph (A @ [nextNode s] @ ph # B) = A @ [nextNode s] @ B"
    using pA pB kp by simp
  then have "removeAll ph (childNodes ?s1 self) = A @ [nextNode s] @ B"
    unfolding c1 .
  then show "childNodes (snd (thenCallback self ph (Str t) s)) self = A @ [nextNode s] @ B"
    unfolding tc by simp
  show "nodeType (snd (thenCallback self ph (Str t) s)) (nextNode s) = Text t"
    unfolding tc using a(3) by (simp add: removeNode_def del: appendEl.simps)
qed

lemma parentNode_None_detached: "parentNode s ph = None \<Longrightarrow> detachedPoint self (Some ph) s"
  by (simp add: detachedPoint_def parentElement_def)

text \<open>
  Claim C6 as stated fails for a Promise that resolves to a value \<open>append\<close> does not
  accept: with the placeholder 3 still a child of the host element 1, the callback throws
  the TypeError, nothing is appended and the placeholder stays where it is.
\<close>

theorem deferred_resolution_counterexample:
  "parentNode promisePage 3 = Some 1
   \<and> childNodes promisePage 1 = [3]
   \<and> fst (thenCallback 1 3 Unsupported promisePage) = Inl TypeError
   \<and> childNodes (snd (thenCallback 1 3 Unsupported promisePage)) 1 = [3]"
  by code_simp

text \<open>
  Claim C9, as the code has it. Whenever the callback of a resolved Promise returns, the
  placeholder is out of the tree. When the placeholder is not a child of the host element
  (it was removed, or moved under another node), the callback returns for every resolved
  value, without looking at it, and its whole effect is to take the placeholder out of
  the child list it is in.
\<close>

theorem placeholder_removed_when_callback_returns:
  "(fst (thenCallback self ph v s) = Inr () \<longrightarrow>
      gone (snd (thenCallback self ph v s)) ph
      \<and> parentNode (snd (thenCallback self ph v s)) ph = None)
   \<and> (detachedPoint self (Some ph) s \<longrightarrow>
      thenCallback self ph v s = (Inr (), removeNode ph s)
      \<and> parentNode (removeNode ph s) ph = None
      \<and> (\<forall>q. childNodes (removeNode ph s) q = removeAll ph (childNodes s q)))"
  by (auto simp add: thenCallback_returns thenCallback_detached gone_parentNode)

theorem placeholder_removed_when_callback_returns_witness:
  "parentNode movedPlaceholderPage 3 = Some 2
   \<and> detachedPoint 1 (Some 3) movedPlaceholderPage
   \<and> thenCallback 1 3 (Str ''late'') movedPlaceholderPage = (Inr (), removeNode 3 movedPlaceholderPage)
   \<and> parentNode (removeNode 3 movedPlaceholderPage) 3 = None
   \<and> childNodes (removeNode 3 movedPlaceholderPage) 2 = []
   \<and> childNodes (removeNode 3 movedPlaceholderPage) 1 = []
   \<and> fst (thenCallback 1 3 (Str ''late'') movedPlaceholderPage) = Inr ()
   \<and> gone (snd (thenCallback 1 3 (Str ''late'') movedPlaceholderPage)) 3"
proof -
  have h: "parentNode movedPlaceholderPage 3 = Some 2" "detachedPoint 1 (Some 3) movedPlaceholderPage"
    "childNodes (removeNode 3 movedPlaceholderPage) 2 = []"
    "childNodes (removeNode 3 movedPlaceholderPage) 1 = []"
    by code_simp+
  note t = placeholder_removed_when_callback_returns [of 1 3 "Str ''late''" movedPlaceholderPage]
  from t h(2) have a: "thenCallback 1 3 (Str ''late'') movedPlaceholderPage = (Inr (), removeNode 3 movedPlaceholderPage)"
    by blast
  then have b: "fst (thenCallback 1 3 (Str ''late'') movedPlaceholderPage) = Inr ()" by simp
  with t have c: "gone (snd (thenCallback 1 3 (Str ''late'') movedPlaceholderPage)) 3" by blast
  from h a b c show ?thesis by simp
qed

text \<open>
  Claim C9 as stated fails when \<open>append\<close> of the resolved value throws: with the
  placeholder 3 a child of the host element 1 and a resolved sequence whose second element
  is of no accepted kind, the callback appends the text, throws the TypeError, and the
  placeholder is still a child of the host element.
\<close>

theorem placeholder_not_removed_counterexample:
  "parentNode promisePage 3 = Some 1
   \<and> fst (thenCallback 1 3 (Iterable [Str ''a'', Unsupported]) promisePage) = Inl TypeError
   \<and> childNodes (snd (thenCallback 1 3 (Iterable [Str ''a'', Unsupported]) promisePage)) 1 = [4, 3]
   \<and> parentNode (snd (thenCallback 1 3 (Iterable [Str ''a'', Unsupported]) promisePage)) 3 = Some 1"
  by code_simp

subsection \<open>The order of two siblings\<close>

lemma dropWhile_filter_first:
  "P a \<Longrightarrow> dropWhile (\<lambda>x. x \<noteq> a) (filter P xs) = filter P (dropWhile (\<lambda>x. x \<noteq> a) xs)"
  by (induction xs) auto

lemma tl_filter_dropWhile:
  "P a \<Longrightarrow> tl (filter P (dropWhile (\<lambda>x. x \<noteq> a) xs)) = filter P (tl (dropWhile (\<lambda>x. x \<noteq> a) xs))"
  by (induction xs) auto

lemma follows_filter: "P a \<Longrightarrow> P b \<Longrightarrow> follows a b (filter P xs) = follows a b xs"
  by (simp add: follows_def dropWhile_filter_first tl_filter_dropWhile)

lemma follows_removeAll: "a \<noteq> x \<Longrightarrow> b \<noteq> x \<Longrightarrow> follows a b (removeAll x xs) = follows a b xs"
  using follows_filter [of "\<lambda>y. y \<noteq> x" a b xs] by (simp add: removeAll_filter_not_eq eq_commute)

lemma follows_absent: "a \<notin> set ys \<Longrightarrow> \<not> follows a b ys"
  by (induction ys) (auto simp add: follows_def)

lemma follows_append_new:
  "a \<notin> set new \<Longrightarrow> b \<notin> set new \<Longrightarrow> follows a b (xs @ new) = follows a b xs"
proof (induction xs)
  case Nil
  then show ?case using follows_absent [of a new b] follows_absent [of a "[]" b] by simp
next
  case (Cons x xs)
  then show ?case by (auto simp add: follows_def)
qed

lemma follows_Cons_other: "x \<noteq> a \<Longrightarrow> follows a b (x # xs) = follows a b xs"
  by (simp add: follows_def)

lemma follows_new_prefix:
  "a \<notin> set new \<Longrightarrow> b \<notin> set new \<Longrightarrow> follows a b (new @ xs) = follows a b xs"
  by (induction new) (auto simp add: follows_Cons_other)

lemma follows_insertAt:
  "a \<notin> set new \<Longrightarrow> b \<notin> set new \<Longrightarrow> follows a b (insertAt new r xs) = follows a b xs"
proof (induction new r xs rule: insertAt.induct)
  case (1 new xs)
  then show ?case by (simp add: follows_append_new)
next
  case (2 new r)
  then show ?case using follows_new_prefix [of a new b "[]"] by simp
next
  case (3 new r x xs)
  show ?case
  proof (cases "x = r")
    case True
    with 3 show ?thesis using follows_new_prefix [of a new b "x # xs"] by simp
  next
    case False
    show ?thesis
    proof (cases "x = a")
      case True
      with False 3 show ?thesis by (auto simp add: follows_def)
    next
      case xa: False
      with False 3 show ?thesis by (simp add: follows_Cons_other)
    qed
  qed
qed

lemma follows_adjacent: "a \<notin> set A \<Longrightarrow> follows a b (A @ a # b # B)"
  by (induction A) (auto simp add: follows_def)

lemma follows_split: "follows a b xs \<Longrightarrow> \<exists>A old B. xs = A @ a # old @ b # B"
proof (induction xs)
  case Nil
  then show ?case by (simp add: follows_def)
next
  case (Cons x xs)
  show ?case
  proof (cases "x = a")
    case True
    with Cons.prems have "b \<in> set xs" by (simp add: follows_def)
    then obtain old B where "xs = old @ b # B" by (auto dest: split_list)
    with True have "x # xs = [] @ a # old @ b # B" by simp
    then show ?thesis by blast
  next
    case False
    with Cons.prems have "follows a b xs" by (simp add: follows_def)
    from Cons.IH [OF this] obtain A old B where "xs = A @ a # old @ b # B" by blast
    then have "x # xs = (x # A) @ a # old @ b # B" by simp
    then show ?thesis by blast
  qed
qed

subsection \<open>What \<open>append\<close> places, kind by kind\<close>

lemma insertBefore_node_succeeds:
  assumes el: "instanceofElement s self" and ap: "attachedPoint s self ip"
    and n: "instanceofElement s n \<or> instanceofDocumentFragment s n"
    and nc: "\<not> contains s n self"
  shows "\<exists>s'. insertBefore self n ip s = Inr s'"
proof -
  have t: "takesChildren s self" using el by (simp add: takesChildren_def instanceofElement_def)
  have v: "validChild s self n"
    using el n by (auto simp add: validChild_def instanceofElement_def instanceofDocumentFragment_def)
  have r: "\<not> (case ip of None \<Rightarrow> False | Some r \<Rightarrow> r \<notin> set (childNodes s self))"
    using attachedPoint_ref [OF ap] by (cases ip) simp_all
  show ?thesis using t v r nc by (simp add: insertBefore_def Let_def)
qed

lemma appendEl_NodeRef:
  assumes wf: "wf s" and el: "instanceofElement s self" and ap: "attachedPoint s self ip"
    and n: "instanceofElement s n \<or> instanceofDocumentFragment s n"
    and nc: "\<not> contains s n self"
  shows "fst (appendEl self (NodeRef n) ip s) = Inr True"
    and "placed ip (movedNodes s n) (childNodes s self) (childNodes (snd (appendEl self (NodeRef n) ip s)) self)"
    and "nextNode (snd (appendEl self (NodeRef n) ip s)) = nextNode s"
    and "nodeType (snd (appendEl self (NodeRef n) ip s)) = nodeType s"
    and "instanceofDocumentFragment s n \<Longrightarrow> childNodes (snd (appendEl self (NodeRef n) ip s)) n = []"
proof -
  have nd: "\<not> detachedPoint self ip s" using ap el by (rule attached_not_detached)
  obtain s' where ins: "insertBefore self n ip s = Inr s'"
    using insertBefore_node_succeeds [OF el ap n nc] by blast
  have r: "appendEl self (NodeRef n) ip s = (Inr True, s')"
    using nd n ins by simp
  note I = insertBefore_Inr [OF ins]
  show "fst (appendEl self (NodeRef n) ip s) = Inr True" using r by simp
  show "placed ip (movedNodes s n) (childNodes s self) (childNodes (snd (appendEl self (NodeRef n) ip s)) self)"
    unfolding r using placed_insert_node(1) [OF ins wf el n ap] by simp
  show "nextNode (snd (appendEl self (NodeRef n) ip s)) = nextNode s" unfolding r using I(2) by simp
  show "nodeType (snd (appendEl self (NodeRef n) ip s)) = nodeType s" unfolding r using I(3) by simp
  show "childNodes (snd (appendEl self (NodeRef n) ip s)) n = []" if f: "instanceofDocumentFragment s n"
  proof -
    from f el have "n \<noteq> self" by (auto simp add: instanceofElement_def instanceofDocumentFragment_def)
    from I(9) [OF this] f have "childNodes s' n = filter (\<lambda>x. x \<notin> set (childNodes s n)) (childNodes s n)"
      by (simp add: movedNodes_def instanceofDocumentFragment_def)
    then show ?thesis unfolding r by simp
  qed
qed

lemma forEachAppend_Strs:
  assumes wf: "wf s" and el: "instanceofElement s self" and ap: "attachedPoint s self ip"
  shows "fst (forEachAppend self (map Str ts) ip s) = Inr ()
    \<and> placed ip [nextNode s..<nextNode s + length ts] (childNodes s self)
         (childNodes (snd (forEachAppend self (map Str ts) ip s)) self)
    \<and> (\<forall>i<length ts. nodeType (snd (forEachAppend self (map Str ts) ip s)) (nextNode s + i) = Text (ts ! i))
    \<and> nextNode (snd (forEachAppend self (map Str ts) ip s)) = nextNode s + length ts
    \<and> (\<forall>x<nextNode s. nodeType (snd (forEachAppend self (map Str ts) ip s)) x = nodeType s x)"
  using assms
proof (induction ts arbitrary: s)
  case Nil
  then show ?case by (simp add: placed_Nil)
next
  case (Cons t ts)
  let ?r = "appendEl self (Str t) ip s"
  let ?s1 = "snd ?r"
  note a = appendEl_Str [OF Cons.prems, of t]
  obtain b s1 where r: "appendEl self (Str t) ip s = (Inr b, s1)" using a(1) by (cases ?r) auto
  have s1: "s1 = ?s1" using r by simp
  have e: "edits self s ?s1" using Cons.prems(1,2) by (rule appendEl_edits)
  have wf1: "wf ?s1" using e Cons.prems(1) by (rule wf_edits)
  have el1: "instanceofElement ?s1 self" using e Cons.prems(2) by (rule edits_instanceofElement)
  have ap1: "attachedPoint ?s1 self ip" using e Cons.prems a(2) by (rule attachedPoint_edits)
  note ih = Cons.IH [OF wf1 el1 ap1]
  have "forEachAppend self (Str t # map Str ts) ip s = forEachAppend self (map Str ts) ip s1"
    by (simp only: forEachAppend.simps r prod.case sum.case)
  then have f: "forEachAppend self (map Str (t # ts)) ip s = forEachAppend self (map Str ts) ip ?s1"
    unfolding s1 by simp
  have d1: "distinct (childNodes ?s1 self)"
    using wf1 el1 by (simp add: wf_distinct instanceofElement_less)
  have "placed ip (filter (\<lambda>x. x \<notin> set [nextNode ?s1..<nextNode ?s1 + length ts]) [nextNode s]
                     @ [nextNode ?s1..<nextNode ?s1 + length ts])
          (childNodes s self) (childNodes (snd (forEachAppend self (map Str ts) ip ?s1)) self)"
    using a(2) _ d1
  proof (rule placed_trans)
    show "placed ip [nextNode ?s1..<nextNode ?s1 + length ts] (childNodes ?s1 self)
       (childNodes (snd (forEachAppend self (map Str ts) ip ?s1)) self)"
      using ih by blast
  qed
  moreover have "filter (\<lambda>x. x \<notin> set [nextNode ?s1..<nextNode ?s1 + length ts]) [nextNode s]
                     @ [nextNode ?s1..<nextNode ?s1 + length ts]
       = [nextNode s..<nextNode s + length (t # ts)]"
  proof -
    have "nextNode s < nextNode s + Suc (length ts)" by simp
    from upt_conv_Cons [OF this]
    have "[nextNode s..<nextNode s + length (t # ts)] = nextNode s # [Suc (nextNode s)..<Suc (nextNode s) + length ts]"
      by (simp del: upt_Suc)
    then show ?thesis unfolding a(4) by (simp del: upt_Suc)
  qed
  ultimately have p: "placed ip [nextNode s..<nextNode s + length (t # ts)] (childNodes s self)
          (childNodes (snd (forEachAppend self (map Str (t # ts)) ip s)) self)"
    unfolding f by (simp only:)
  have ty: "nodeType (snd (forEachAppend self (map Str (t # ts)) ip s)) (nextNode s + i) = Text ((t # ts) ! i)"
    if i: "i < length (t # ts)" for i
  proof (cases i)
    case 0
    have "nextNode s < nextNode ?s1" unfolding a(4) by simp
    with ih have "nodeType (snd (forEachAppend self (map Str ts) ip ?s1)) (nextNode s) = nodeType ?s1 (nextNode s)"
      by blast
    with a(3) 0 show ?thesis unfolding f by simp
  next
    case (Suc j)
    with i have "j < length ts" by simp
    with ih have "nodeType (snd (forEachAppend self (map Str ts) ip ?s1)) (nextNode ?s1 + j) = Text (ts ! j)"
      by blast
    then show ?thesis unfolding f a(4) Suc by simp
  qed
  have nn: "nextNode (snd (forEachAppend self (map Str (t # ts)) ip s)) = nextNode s + length (t # ts)"
    unfolding f using ih a(4) by simp
  have old: "nodeType (snd (forEachAppend self (map Str (t # ts)) ip s)) x = nodeType s x" if x: "x < nextNode s" for x
  proof -
    from x have "x < nextNode ?s1" unfolding a(4) by simp
    with ih have "nodeType (snd (forEachAppend self (map Str ts) ip ?s1)) x = nodeType ?s1 x" by blast
    also have "\<dots> = nodeType s x" using e x by (rule edits_nodeType)
    finally show ?thesis unfolding f .
  qed
  have "fst (forEachAppend self (map Str (t # ts)) ip s) = Inr ()" unfolding f using ih by blast
  with p ty nn old show ?case by blast
qed

lemma appendEl_Iterable_eq:
  "\<not> detachedPoint self ip s \<Longrightarrow>
     appendEl self (Iterable cs) ip s =
       (case forEachAppend self cs ip s of (Inl e, s1) \<Rightarrow> (Inl e, s1) | (Inr _, s1) \<Rightarrow> (Inr True, s1))"
  by simp

lemma appendEl_Strs:
  assumes wf: "wf s" and el: "instanceofElement s self" and ap: "attachedPoint s self ip"
  shows "fst (appendEl self (Iterable (map Str ts)) ip s) = Inr True"
    and "placed ip [nextNode s..<nextNode s + length ts] (childNodes s self)
         (childNodes (snd (appendEl self (Iterable (map Str ts)) ip s)) self)"
    and "\<forall>i<length ts. nodeType (snd (appendEl self (Iterable (map Str ts)) ip s)) (nextNode s + i) = Text (ts ! i)"
proof -
  have nd: "\<not> detachedPoint self ip s" using ap el by (rule attached_not_detached)
  note f = forEachAppend_Strs [OF wf el ap, of ts]
  obtain s1 where r: "forEachAppend self (map Str ts) ip s = (Inr (), s1)"
    using f by (cases "forEachAppend self (map Str ts) ip s") auto
  have a: "appendEl self (Iterable (map Str ts)) ip s = (Inr True, s1)"
    unfolding appendEl_Iterable_eq [OF nd] r by simp
  show "fst (appendEl self (Iterable (map Str ts)) ip s) = Inr True" using a by simp
  show "placed ip [nextNode s..<nextNode s + length ts] (childNodes s self)
         (childNodes (snd (appendEl self (Iterable (map Str ts)) ip s)) self)"
    using f unfolding a r by simp
  show "\<forall>i<length ts. nodeType (snd (appendEl self (Iterable (map Str ts)) ip s)) (nextNode s + i) = Text (ts ! i)"
    using f unfolding a r by simp
qed



subsection \<open>The insertion point of \<open>append\<close>\<close>






subsection \<open>Removing nodes cuts no node into the chain of ancestors\<close>

lemma ancestors_cut:
  assumes "\<And>m. parentNode s' m = parentNode s m \<or> parentNode s' m = None"
  shows "set (ancestors k s' n) \<subseteq> set (ancestors k s n)"
proof (induction k arbitrary: n)
  case 0
  then show ?case by simp
next
  case (Suc k)
  show ?case
  proof (cases "parentNode s' n")
    case None
    then show ?thesis by simp
  next
    case (Some p)
    with assms [of n] have "parentNode s n = Some p" by simp
    with Some Suc [of p] show ?thesis by auto
  qed
qed

lemma parentNode_fold_removeNode:
  "parentNode (fold removeNode xs s) m = parentNode s m \<or> parentNode (fold removeNode xs s) m = None"
proof (induction xs arbitrary: s)
  case Nil
  then show ?case by simp
next
  case (Cons x xs)
  have "parentNode (removeNode x s) m = parentNode s m \<or> parentNode (removeNode x s) m = None"
    by (cases "m = x") (simp_all add: parentNode_removeNode_other)
  with Cons [of "removeNode x s"] show ?case by auto
qed

lemma contains_fold_removeNode:
  "contains (fold removeNode xs s) a n \<Longrightarrow> contains s a n"
proof -
  assume c: "contains (fold removeNode xs s) a n"
  have n: "nextNode (fold removeNode xs s) = nextNode s" by (simp add: fold_removeNode)
  have "set (ancestors (nextNode s) (fold removeNode xs s) n) \<subseteq> set (ancestors (nextNode s) s n)"
    by (rule ancestors_cut) (rule parentNode_fold_removeNode)
  with c show ?thesis unfolding contains_def n by auto
qed

subsection \<open>The callback and the re-render rule, for a value whose nodes are known\<close>

lemma thenCallback_exact:
  assumes wf: "wf s" and el: "instanceofElement s self"
    and c: "childNodes s self = A @ ph # B"
    and r: "fst (appendEl self v (Some ph) s) = Inr b"
    and pl: "placed (Some ph) N (childNodes s self) (childNodes (snd (appendEl self v (Some ph) s)) self)"
  shows "fst (thenCallback self ph v s) = Inr ()"
    and "childNodes (snd (thenCallback self ph v s)) self
           = filter (\<lambda>x. x \<notin> set N) A @ N @ filter (\<lambda>x. x \<notin> set N) B"
    and "gone (snd (thenCallback self ph v s)) ph"
proof -
  let ?s1 = "snd (appendEl self v (Some ph) s)"
  obtain s1 where a: "appendEl self v (Some ph) s = (Inr b, s1)"
    using r by (cases "appendEl self v (Some ph) s") auto
  have s1: "s1 = ?s1" using a by simp
  have "thenCallback self ph v s = (Inr (), removeNode ph s1)"
    unfolding thenCallback_def a by simp
  then have tc: "thenCallback self ph v s = (Inr (), removeNode ph ?s1)" unfolding s1 .
  show "fst (thenCallback self ph v s) = Inr ()" using tc by simp
  show "gone (snd (thenCallback self ph v s)) ph" unfolding tc by simp
  from pl obtain A1 B1 where N: "childNodes s self = A1 @ ph # B1"
    "childNodes ?s1 self = filter (\<lambda>x. x \<notin> set N) A1 @ N @ ph # filter (\<lambda>x. x \<notin> set N) B1"
    by (auto simp add: placed_def)
  have d: "distinct (childNodes s self)" using wf el by (simp add: wf_distinct instanceofElement_less)
  have "A @ ph # B = A1 @ ph # B1" using c N(1) by simp
  moreover have "distinct (A @ ph # B)" using d c by simp
  ultimately have AB: "A1 = A" "B1 = B" using split_unique [of A ph B A1 B1] by simp_all
  have e: "edits self s ?s1" using wf el by (rule appendEl_edits)
  have "distinct (childNodes ?s1 self)"
    using wf_edits [OF e wf] edits_instanceofElement [OF e el]
    by (simp add: wf_distinct instanceofElement_less)
  then have "ph \<notin> set (filter (\<lambda>x. x \<notin> set N) A)" "ph \<notin> set N" "ph \<notin> set (filter (\<lambda>x. x \<notin> set N) B)"
    unfolding N(2) AB by auto
  then have "removeAll ph (filter (\<lambda>x. x \<notin> set N) A @ N @ ph # filter (\<lambda>x. x \<notin> set N) B)
      = filter (\<lambda>x. x \<notin> set N) A @ N @ filter (\<lambda>x. x \<notin> set N) B"
    by simp
  then have "removeAll ph (childNodes ?s1 self) = filter (\<lambda>x. x \<notin> set N) A @ N @ filter (\<lambda>x. x \<notin> set N) B"
    unfolding N(2) AB .
  then show "childNodes (snd (thenCallback self ph v s)) self
           = filter (\<lambda>x. x \<notin> set N) A @ N @ filter (\<lambda>x. x \<notin> set N) B"
    unfolding tc by (simp add: removeNode_def)
qed

lemma rerender_exact:
  assumes wf: "wf s" and el: "instanceofElement s self" and en: "isComment s en"
    and c: "childNodes s self = A @ st # old @ en # B"
    and r: "fst (appendEl self v (Some en) (fold removeNode old s)) = Inr b"
    and pl: "placed (Some en) N (childNodes (fold removeNode old s) self)
               (childNodes (snd (appendEl self v (Some en) (fold removeNode old s))) self)"
    and st: "st \<notin> set N"
  shows "fst (metaObserverRun self st en v s) = Inr ()"
    and "childNodes (snd (metaObserverRun self st en v s)) self
           = filter (\<lambda>x. x \<notin> set N) A @ st # N @ en # filter (\<lambda>x. x \<notin> set N) B"
proof -
  let ?s1 = "fold removeNode old s"
  let ?s2 = "snd (appendEl self v (Some en) ?s1)"
  note u = rerender_unfold [OF wf el en c]
  obtain s2 where a: "appendEl self v (Some en) ?s1 = (Inr b, s2)"
    using r by (cases "appendEl self v (Some en) ?s1") auto
  have s2: "s2 = ?s2" using a by simp
  have "metaObserverRun self st en v s = (Inr (), s2)"
    unfolding u(1) a by simp
  then have m: "metaObserverRun self st en v s = (Inr (), ?s2)" unfolding s2 .
  show "fst (metaObserverRun self st en v s) = Inr ()" using m by simp
  from pl obtain A1 B1 where N: "childNodes ?s1 self = A1 @ en # B1"
    "childNodes ?s2 self = filter (\<lambda>x. x \<notin> set N) A1 @ N @ en # filter (\<lambda>x. x \<notin> set N) B1"
    by (auto simp add: placed_def)
  have wf1: "wf ?s1" using u(2) wf by (rule wf_edits)
  have el1: "instanceofElement ?s1 self" using u(2) el by (rule edits_instanceofElement)
  have d1: "distinct (childNodes ?s1 self)"
    using wf1 el1 by (simp add: wf_distinct instanceofElement_less)
  have "(A @ [st]) @ en # B = A1 @ en # B1" using u(3) N(1) by simp
  moreover have "distinct ((A @ [st]) @ en # B)" using d1 u(3) by simp
  ultimately have AB: "A1 = A @ [st]" "B1 = B" using split_unique [of "A @ [st]" en B A1 B1] by simp_all
  have "childNodes ?s2 self = filter (\<lambda>x. x \<notin> set N) A @ st # N @ en # filter (\<lambda>x. x \<notin> set N) B"
    using N(2) st unfolding AB by simp
  then show "childNodes (snd (metaObserverRun self st en v s)) self
           = filter (\<lambda>x. x \<notin> set N) A @ st # N @ en # filter (\<lambda>x. x \<notin> set N) B"
    unfolding m by simp
qed

lemma rerender_node:
  assumes wf: "wf s" and el: "instanceofElement s self" and st: "isComment s st" and en: "isComment s en"
    and c: "childNodes s self = A @ st # old @ en # B"
    and n: "instanceofElement s n" and nc: "\<not> contains s n self"
  shows "fst (metaObserverRun self st en (NodeRef n) s) = Inr ()"
    and "childNodes (snd (metaObserverRun self st en (NodeRef n) s)) self
           = filter (\<lambda>x. x \<noteq> n) A @ st # n # en # filter (\<lambda>x. x \<noteq> n) B"
proof -
  let ?s1 = "fold removeNode old s"
  note u = rerender_unfold [OF wf el en c]
  have wf1: "wf ?s1" using u(2) wf by (rule wf_edits)
  have el1: "instanceofElement ?s1 self" using u(2) el by (rule edits_instanceofElement)
  have n1: "instanceofElement ?s1 n \<or> instanceofDocumentFragment ?s1 n"
    using n by (simp add: instanceofElement_def u(5,6))
  have nc1: "\<not> contains ?s1 n self" using nc contains_fold_removeNode by blast
  note a = appendEl_NodeRef [OF wf1 el1 u(4) n1 nc1]
  have m: "movedNodes ?s1 n = [n]" using n by (simp add: movedNodes_def instanceofElement_def u(6))
  have sn: "st \<notin> set [n]" using st n by (auto simp add: isComment_def instanceofElement_def)
  note x = rerender_exact [OF wf el en c a(1) a(2) [unfolded m] sn]
  show "fst (metaObserverRun self st en (NodeRef n) s) = Inr ()" by (rule x)
  show "childNodes (snd (metaObserverRun self st en (NodeRef n) s)) self
           = filter (\<lambda>x. x \<noteq> n) A @ st # n # en # filter (\<lambda>x. x \<noteq> n) B"
    using x(2) by (simp del: metaObserverRun.simps)
qed

lemma rerender_Strs:
  assumes wf: "wf s" and el: "instanceofElement s self" and st: "isComment s st" and en: "isComment s en"
    and c: "childNodes s self = A @ st # old @ en # B"
  shows "fst (metaObserverRun self st en (Iterable (map Str ts)) s) = Inr ()"
    and "childNodes (snd (metaObserverRun self st en (Iterable (map Str ts)) s)) self
           = A @ st # [nextNode s..<nextNode s + length ts] @ en # B"
proof -
  let ?s1 = "fold removeNode old s"
  let ?N = "[nextNode s..<nextNode s + length ts]"
  note u = rerender_unfold [OF wf el en c]
  have wf1: "wf ?s1" using u(2) wf by (rule wf_edits)
  have el1: "instanceofElement ?s1 self" using u(2) el by (rule edits_instanceofElement)
  note a = appendEl_Strs [OF wf1 el1 u(4), of ts]
  have self: "self < nextNode s" using el by (rule instanceofElement_less)
  have lt: "\<And>x. x \<in> set (childNodes s self) \<Longrightarrow> x < nextNode s"
    using wf_child_less [OF wf self] by blast
  have sn: "st \<notin> set ?N" using lt [of st] c by auto
  have fA: "filter (\<lambda>x. x \<notin> set ?N) A = A"
    using lt c by (intro filter_notin_id) fastforce
  have fB: "filter (\<lambda>x. x \<notin> set ?N) B = B"
    using lt c by (intro filter_notin_id) fastforce
  note x = rerender_exact [OF wf el en c a(1) a(2) [unfolded u(5)] sn]
  show "fst (metaObserverRun self st en (Iterable (map Str ts)) s) = Inr ()" by (rule x)
  show "childNodes (snd (metaObserverRun self st en (Iterable (map Str ts)) s)) self
           = A @ st # ?N @ en # B"
    using x(2) unfolding fA fB .
qed

lemma thenCallback_node:
  assumes wf: "wf s" and el: "instanceofElement s self" and ap: "attachedPoint s self (Some ph)"
    and c: "childNodes s self = A @ ph # B"
    and n: "instanceofElement s n" and nc: "\<not> contains s n self"
  shows "fst (thenCallback self ph (NodeRef n) s) = Inr ()"
    and "childNodes (snd (thenCallback self ph (NodeRef n) s)) self
           = filter (\<lambda>x. x \<noteq> n) A @ [n] @ filter (\<lambda>x. x \<noteq> n) B"
proof -
  have n1: "instanceofElement s n \<or> instanceofDocumentFragment s n" using n by simp
  note a = appendEl_NodeRef [OF wf el ap n1 nc]
  have m: "movedNodes s n = [n]" using n by (simp add: movedNodes_def instanceofElement_def)
  note x = thenCallback_exact [OF wf el c a(1) a(2) [unfolded m]]
  show "fst (thenCallback self ph (NodeRef n) s) = Inr ()" by (rule x)
  show "childNodes (snd (thenCallback self ph (NodeRef n) s)) self
           = filter (\<lambda>x. x \<noteq> n) A @ [n] @ filter (\<lambda>x. x \<noteq> n) B"
    using x(2) by simp
qed

lemma thenCallback_Strs:
  assumes wf: "wf s" and el: "instanceofElement s self" and ap: "attachedPoint s self (Some ph)"
    and c: "childNodes s self = A @ ph # B"
  shows "fst (thenCallback self ph (Iterable (map Str ts)) s) = Inr ()"
    and "childNodes (snd (thenCallback self ph (Iterable (map Str ts)) s)) self
           = A @ [nextNode s..<nextNode s + length ts] @ B"
proof -
  let ?N = "[nextNode s..<nextNode s + length ts]"
  note a = appendEl_Strs [OF wf el ap, of ts]
  have self: "self < nextNode s" using el by (rule instanceofElement_less)
  have lt: "\<And>x. x \<in> set (childNodes s self) \<Longrightarrow> x < nextNode s"
    using wf_child_less [OF wf self] by blast
  have fA: "filter (\<lambda>x. x \<notin> set ?N) A = A"
    using lt c by (intro filter_notin_id) fastforce
  have fB: "filter (\<lambda>x. x \<notin> set ?N) B = B"
    using lt c by (intro filter_notin_id) fastforce
  note x = thenCallback_exact [OF wf el c a(1) a(2)]
  show "fst (thenCallback self ph (Iterable (map Str ts)) s) = Inr ()" by (rule x)
  show "childNodes (snd (thenCallback self ph (Iterable (map Str ts)) s)) self = A @ ?N @ B"
    using x(2) unfolding fA fB .
qed


subsection \<open>The resolution of a Promise, value by value\<close>

text \<open>
  Claim C6, as the code has it. On a well-formed page, \<open>append\<close> of a Promise at an
  accepted insertion point returns \<open>true\<close> having put one new comment node, the
  placeholder, immediately before the insertion point, and having registered the callback.
  When the Promise resolves while the placeholder is a child of the host element and
  \<open>append\<close> of the resolved value returns, the nodes of the value stand where the
  placeholder stood and the placeholder is out of the tree. Kind by kind: a text value
  always returns and becomes one new text node there; a sequence of texts always returns
  and becomes one new text node for each, in order; an element that is not an inclusive
  ancestor of the host always returns and is moved there. When the placeholder has no
  parent, the callback returns for every value, inserts nothing, and every node of the
  page keeps its children.
\<close>

theorem deferred_resolution:
  "(wf s \<and> instanceofElement s self \<and> attachedPoint s self insertionPoint \<longrightarrow>
      fst (appendEl self (PromiseRef p) insertionPoint s) = Inr True
      \<and> placed insertionPoint [nextNode s] (childNodes s self)
           (childNodes (snd (appendEl self (PromiseRef p) insertionPoint s)) self)
      \<and> nodeType (snd (appendEl self (PromiseRef p) insertionPoint s)) (nextNode s)
           = Comment ''promisePlaceholder''
      \<and> thens (snd (appendEl self (PromiseRef p) insertionPoint s)) = thens s @ [(p, self, nextNode s)])
   \<and> (wf s \<and> instanceofElement s self \<and> attachedPoint s self (Some ph)
        \<and> childNodes s self = A @ ph # B \<and> fst (thenCallback self ph v s) = Inr () \<longrightarrow>
      gone (snd (thenCallback self ph v s)) ph
      \<and> (\<exists>N. set N \<subseteq> movable s
             \<and> childNodes (snd (appendEl self v (Some ph) s)) self
                  = filter (\<lambda>x. x \<notin> set N) A @ N @ ph # filter (\<lambda>x. x \<notin> set N) B
             \<and> childNodes (snd (thenCallback self ph v s)) self
                  = filter (\<lambda>x. x \<notin> set N) A @ N @ filter (\<lambda>x. x \<notin> set N) B))
   \<and> (wf s \<and> instanceofElement s self \<and> attachedPoint s self (Some ph)
        \<and> childNodes s self = A @ ph # B \<longrightarrow>
      fst (thenCallback self ph (Str t) s) = Inr ()
      \<and> childNodes (snd (thenCallback self ph (Str t) s)) self = A @ [nextNode s] @ B
      \<and> nodeType (snd (thenCallback self ph (Str t) s)) (nextNode s) = Text t)
   \<and> (wf s \<and> instanceofElement s self \<and> attachedPoint s self (Some ph)
        \<and> childNodes s self = A @ ph # B \<longrightarrow>
      fst (thenCallback self ph (Iterable (map Str ts)) s) = Inr ()
      \<and> childNodes (snd (thenCallback self ph (Iterable (map Str ts)) s)) self
           = A @ [nextNode s..<nextNode s + length ts] @ B)
   \<and> (wf s \<and> instanceofElement s self \<and> attachedPoint s self (Some ph)
        \<and> childNodes s self = A @ ph # B \<and> instanceofElement s n \<and> \<not> contains s n self \<longrightarrow>
      fst (thenCallback self ph (NodeRef n) s) = Inr ()
      \<and> childNodes (snd (thenCallback self ph (NodeRef n) s)) self
           = filter (\<lambda>x. x \<noteq> n) A @ [n] @ filter (\<lambda>x. x \<noteq> n) B)
   \<and> (parentNode s ph = None \<longrightarrow>
      thenCallback self ph v s = (Inr (), removeNode ph s)
      \<and> (\<forall>q<nextNode s. childNodes (removeNode ph s) q = childNodes s q)
      \<and> nodeType (removeNode ph s) = nodeType s \<and> nextNode (removeNode ph s) = nextNode s)"
proof (intro conjI impI)
  assume a: "wf s \<and> instanceofElement s self \<and> attachedPoint s self insertionPoint"
  then have wf: "wf s" and el: "instanceofElement s self" and ap: "attachedPoint s self insertionPoint"
    by simp_all
  note P = appendEl_PromiseRef [OF wf el ap, of p]
  show "fst (appendEl self (PromiseRef p) insertionPoint s) = Inr True" by (rule P)
  show "placed insertionPoint [nextNode s] (childNodes s self)
           (childNodes (snd (appendEl self (PromiseRef p) insertionPoint s)) self)" by (rule P)
  show "nodeType (snd (appendEl self (PromiseRef p) insertionPoint s)) (nextNode s)
           = Comment ''promisePlaceholder''" by (rule P)
  show "thens (snd (appendEl self (PromiseRef p) insertionPoint s)) = thens s @ [(p, self, nextNode s)]"
    by (rule P)
next
  assume a: "wf s \<and> instanceofElement s self \<and> attachedPoint s self (Some ph)
        \<and> childNodes s self = A @ ph # B \<and> fst (thenCallback self ph v s) = Inr ()"
  then show "gone (snd (thenCallback self ph v s)) ph" by (simp add: thenCallback_returns)
  from a show "\<exists>N. set N \<subseteq> movable s
             \<and> childNodes (snd (appendEl self v (Some ph) s)) self
                  = filter (\<lambda>x. x \<notin> set N) A @ N @ ph # filter (\<lambda>x. x \<notin> set N) B
             \<and> childNodes (snd (thenCallback self ph v s)) self
                  = filter (\<lambda>x. x \<notin> set N) A @ N @ filter (\<lambda>x. x \<notin> set N) B"
    by (intro thenCallback_attached) simp_all
next
  assume a: "wf s \<and> instanceofElement s self \<and> attachedPoint s self (Some ph)
        \<and> childNodes s self = A @ ph # B"
  then have wf: "wf s" and el: "instanceofElement s self" and ap: "attachedPoint s self (Some ph)"
    and c: "childNodes s self = A @ ph # B"
    by simp_all
  note S = thenCallback_Str [OF wf el ap c, of t]
  show "fst (thenCallback self ph (Str t) s) = Inr ()" by (rule S)
  show "childNodes (snd (thenCallback self ph (Str t) s)) self = A @ [nextNode s] @ B" by (rule S)
  show "nodeType (snd (thenCallback self ph (Str t) s)) (nextNode s) = Text t" by (rule S)
next
  assume a: "wf s \<and> instanceofElement s self \<and> attachedPoint s self (Some ph)
        \<and> childNodes s self = A @ ph # B"
  then have wf: "wf s" and el: "instanceofElement s self" and ap: "attachedPoint s self (Some ph)"
    and c: "childNodes s self = A @ ph # B"
    by simp_all
  note S = thenCallback_Strs [OF wf el ap c, of ts]
  show "fst (thenCallback self ph (Iterable (map Str ts)) s) = Inr ()" by (rule S)
  show "childNodes (snd (thenCallback self ph (Iterable (map Str ts)) s)) self
           = A @ [nextNode s..<nextNode s + length ts] @ B" by (rule S)
next
  assume a: "wf s \<and> instanceofElement s self \<and> attachedPoint s self (Some ph)
        \<and> childNodes s self = A @ ph # B \<and> instanceofElement s n \<and> \<not> contains s n self"
  then have wf: "wf s" and el: "instanceofElement s self" and ap: "attachedPoint s self (Some ph)"
    and c: "childNodes s self = A @ ph # B" and n: "instanceofElement s n" and nc: "\<not> contains s n self"
    by simp_all
  note S = thenCallback_node [OF wf el ap c n nc]
  show "fst (thenCallback self ph (NodeRef n) s) = Inr ()" by (rule S)
  show "childNodes (snd (thenCallback self ph (NodeRef n) s)) self
           = filter (\<lambda>x. x \<noteq> n) A @ [n] @ filter (\<lambda>x. x \<noteq> n) B" by (rule S)
next
  assume a: "parentNode s ph = None"
  then show "thenCallback self ph v s = (Inr (), removeNode ph s)"
    by (simp add: thenCallback_detached parentNode_None_detached)
  from a show "\<forall>q<nextNode s. childNodes (removeNode ph s) q = childNodes s q"
    by (auto simp add: parentNode_def find_None_iff)
  show "nodeType (removeNode ph s) = nodeType s" by (simp add: removeNode_def)
  show "nextNode (removeNode ph s) = nextNode s" by simp
qed




theorem deferred_resolution_witness:
  "wf regionPage \<and> instanceofElement regionPage 1 \<and> attachedPoint regionPage 1 (Some 4)
   \<and> childNodes regionPage 1 = [3, 5, 4]
   \<and> fst (appendEl 1 (PromiseRef 0) (Some 4) regionPage) = Inr True
   \<and> childNodes pendingPage 1 = [3, 5, 6, 4]
   \<and> nodeType pendingPage 6 = Comment ''promisePlaceholder''
   \<and> thens pendingPage = [(0, 1, 6)]
   \<and> wf pendingPage \<and> instanceofElement pendingPage 1 \<and> attachedPoint pendingPage 1 (Some 6)
   \<and> childNodes pendingPage 1 = [3, 5] @ 6 # [4]
   \<and> fst (thenCallback 1 6 (Str ''done'') pendingPage) = Inr ()
   \<and> childNodes (snd (thenCallback 1 6 (Str ''done'') pendingPage)) 1 = [3, 5, 7, 4]
   \<and> nodeType (snd (thenCallback 1 6 (Str ''done'') pendingPage)) 7 = Text ''done''
   \<and> gone (snd (thenCallback 1 6 (Str ''done'') pendingPage)) 6
   \<and> fst (thenCallback 1 6 (Iterable (map Str [''a'', ''b''])) pendingPage) = Inr ()
   \<and> childNodes (snd (thenCallback 1 6 (Iterable (map Str [''a'', ''b''])) pendingPage)) 1 = [3, 5, 7, 8, 4]
   \<and> instanceofElement pendingPage 2 \<and> \<not> contains pendingPage 2 1
   \<and> fst (thenCallback 1 6 (NodeRef 2) pendingPage) = Inr ()
   \<and> childNodes (snd (thenCallback 1 6 (NodeRef 2) pendingPage)) 1 = [3, 5, 2, 4]
   \<and> parentNode (removeNode 6 pendingPage) 6 = None
   \<and> thenCallback 1 6 (NodeRef 2) (removeNode 6 pendingPage)
        = (Inr (), removeNode 6 (removeNode 6 pendingPage))
   \<and> childNodes (removeNode 6 (removeNode 6 pendingPage)) 1 = [3, 5, 4]"
proof -
  have h: "wf regionPage" "instanceofElement regionPage 1" "attachedPoint regionPage 1 (Some 4)"
    "childNodes regionPage 1 = [3, 5, 4]" "nextNode regionPage = 6"
    by code_simp+
  have g: "wf pendingPage" "instanceofElement pendingPage 1" "attachedPoint pendingPage 1 (Some 6)"
    "childNodes pendingPage 1 = [3, 5] @ 6 # [4]" "nextNode pendingPage = 7"
    "instanceofElement pendingPage 2" "\<not> contains pendingPage 2 1"
    by code_simp+
  have k: "childNodes pendingPage 1 = [3, 5, 6, 4]" "thens regionPage = []"
    "childNodes (removeNode 6 (removeNode 6 pendingPage)) 1 = [3, 5, 4]"
    by code_simp+
  have p: "parentNode (removeNode 6 pendingPage) 6 = None" by simp
  note 1 = deferred_resolution [where s = regionPage and self = 1 and insertionPoint = "Some 4" and p = 0]
  note 2 = deferred_resolution [where s = pendingPage and self = 1 and ph = 6 and A = "[3, 5]" and B = "[4]"
      and t = "''done''" and v = "Str ''done''" and ts = "[''a'', ''b'']" and n = 2]
  note 3 = deferred_resolution [where s = "removeNode 6 pendingPage" and self = 1 and ph = 6 and v = "NodeRef 2"]
  from 1 h have a: "fst (appendEl 1 (PromiseRef 0) (Some 4) regionPage) = Inr True"
    "nodeType (snd (appendEl 1 (PromiseRef 0) (Some 4) regionPage)) (nextNode regionPage)
           = Comment ''promisePlaceholder''"
    "thens (snd (appendEl 1 (PromiseRef 0) (Some 4) regionPage)) = thens regionPage @ [(0, 1, nextNode regionPage)]"
    by blast+
  from 2 g have b: "fst (thenCallback 1 6 (Str ''done'') pendingPage) = Inr ()"
    "childNodes (snd (thenCallback 1 6 (Str ''done'') pendingPage)) 1 = [3, 5] @ [nextNode pendingPage] @ [4]"
    "nodeType (snd (thenCallback 1 6 (Str ''done'') pendingPage)) (nextNode pendingPage) = Text ''done''"
    "fst (thenCallback 1 6 (Iterable (map Str [''a'', ''b''])) pendingPage) = Inr ()"
    "childNodes (snd (thenCallback 1 6 (Iterable (map Str [''a'', ''b''])) pendingPage)) 1
       = [3, 5] @ [nextNode pendingPage..<nextNode pendingPage + length [''a'', ''b'']] @ [4]"
    "fst (thenCallback 1 6 (NodeRef 2) pendingPage) = Inr ()"
    "childNodes (snd (thenCallback 1 6 (NodeRef 2) pendingPage)) 1
       = filter (\<lambda>x. x \<noteq> 2) [3, 5] @ [2] @ filter (\<lambda>x. x \<noteq> 2) [4]"
    by blast+
  from 2 g b(1) have c: "gone (snd (thenCallback 1 6 (Str ''done'') pendingPage)) 6" by blast
  from 3 p have d: "thenCallback 1 6 (NodeRef 2) (removeNode 6 pendingPage)
        = (Inr (), removeNode 6 (removeNode 6 pendingPage))" by blast
  have u: "[7..<7 + length [''a'', ''b'']] = [7, 8::nat]" by (simp add: upt_rec)
  from a have a': "nodeType pendingPage 6 = Comment ''promisePlaceholder''" "thens pendingPage = [(0, 1, 6)]"
    unfolding pendingPage_def [symmetric] h(5) k(2) by simp_all
  from h g k a(1) a' b c d p u show ?thesis by (simp del: appendEl.simps)
qed


subsection \<open>One run of the re-render rule, value by value\<close>

text \<open>
  Claim C7, as the code has it. On a well-formed page where the two markers are children
  of the host element, the start marker before the end marker, one run of the re-render
  rule is: the nodes between the markers are taken out of the tree, and then \<open>append\<close>
  of the fresh value runs with the end marker as insertion point, the run throwing what
  \<open>append\<close> throws. After the run the nodes between the markers are exactly the nodes
  \<open>append\<close> put immediately before the end marker; the nodes that were between the
  markers are no longer children of the host element unless the fresh value holds them;
  the children before the start marker and after the end marker keep their order. Kind by
  kind: a text value always returns and leaves one new text node between the markers; a
  sequence of texts always returns and leaves one new text node for each, in order; an
  element that is not an inclusive ancestor of the host always returns and is moved
  between the markers. After any number of re-renders, at least one, each with a single
  text as value, exactly one node stands between the markers, a text node with the last
  text.
\<close>

theorem rerender_replaces:
  assumes "wf s" and "instanceofElement s self" and "isComment s st" and "isComment s en"
    and "childNodes s self = A @ st # old @ en # B"
  shows "metaObserverRun self st en v s
           = (case appendEl self v (Some en) (fold removeNode old s) of
                (Inl e, s') \<Rightarrow> (Inl e, s') | (Inr b, s') \<Rightarrow> (Inr (), s'))
       \<and> childNodes (fold removeNode old s) self = A @ st # en # B
       \<and> list_all (gone (fold removeNode old s)) old
       \<and> (\<exists>N. set N \<subseteq> movable s
            \<and> childNodes (snd (metaObserverRun self st en v s)) self
                 = filter (\<lambda>x. x \<notin> set N) A @ st # N @ en # filter (\<lambda>x. x \<notin> set N) B
            \<and> getNodesBetween (snd (metaObserverRun self st en v s)) st en = Inr N
            \<and> (\<forall>x\<in>set old. x \<notin> set N \<longrightarrow> x \<notin> set (childNodes (snd (metaObserverRun self st en v s)) self)))
       \<and> fst (metaObserverRun self st en (Str t) s) = Inr ()
       \<and> childNodes (snd (metaObserverRun self st en (Str t) s)) self = A @ st # [nextNode s] @ en # B
       \<and> nodeType (snd (metaObserverRun self st en (Str t) s)) (nextNode s) = Text t
       \<and> fst (metaObserverRun self st en (Iterable (map Str us)) s) = Inr ()
       \<and> childNodes (snd (metaObserverRun self st en (Iterable (map Str us)) s)) self
            = A @ st # [nextNode s..<nextNode s + length us] @ en # B
       \<and> (instanceofElement s n \<and> \<not> contains s n self \<longrightarrow>
            fst (metaObserverRun self st en (NodeRef n) s) = Inr ()
            \<and> childNodes (snd (metaObserverRun self st en (NodeRef n) s)) self
                 = filter (\<lambda>x. x \<noteq> n) A @ st # n # en # filter (\<lambda>x. x \<noteq> n) B)
       \<and> (ts \<noteq> [] \<longrightarrow>
            (\<exists>k. childNodes (rerenders self st en ts s) self = A @ st # [k] @ en # B
               \<and> nodeType (rerenders self st en ts s) k = Text (last ts)
               \<and> getNodesBetween (rerenders self st en ts s) st en = Inr [k]))"
proof (intro conjI impI)
  let ?s' = "snd (metaObserverRun self st en v s)"
  note u = rerender_unfold [OF assms(1,2,4,5)]
  show "metaObserverRun self st en v s
           = (case appendEl self v (Some en) (fold removeNode old s) of
                (Inl e, s') \<Rightarrow> (Inl e, s') | (Inr b, s') \<Rightarrow> (Inr (), s'))"
    by (rule u(1))
  show "childNodes (fold removeNode old s) self = A @ st # en # B" by (rule u(3))
  show "list_all (gone (fold removeNode old s)) old"
    by (simp add: list_all_iff gone_def fold_removeNode)
  obtain N where N: "set N \<subseteq> movable s"
    "childNodes ?s' self = filter (\<lambda>x. x \<notin> set N) A @ st # N @ en # filter (\<lambda>x. x \<notin> set N) B"
    using metaObserverRun_placed [OF assms] by blast
  have e: "edits self s ?s'" using assms(1,2) by (rule metaObserverRun_edits)
  have wf': "wf ?s'" using e assms(1) by (rule wf_edits)
  have el': "instanceofElement ?s' self" using e assms(2) by (rule edits_instanceofElement)
  have d': "distinct (childNodes ?s' self)"
    using wf' el' by (simp add: wf_distinct instanceofElement_less del: metaObserverRun.simps)
  have g: "getNodesBetween ?s' st en = Inr N"
    using N(2) d' instanceofElement_less [OF el'] wf' by (rule getNodesBetween_eq)
  have d: "distinct (childNodes s self)"
    using assms(1,2) by (simp add: wf_distinct instanceofElement_less)
  have "\<forall>x\<in>set old. x \<notin> set N \<longrightarrow> x \<notin> set (childNodes ?s' self)"
    using d unfolding N(2) assms(5) by auto
  with N g show "\<exists>N. set N \<subseteq> movable s
            \<and> childNodes ?s' self
                 = filter (\<lambda>x. x \<notin> set N) A @ st # N @ en # filter (\<lambda>x. x \<notin> set N) B
            \<and> getNodesBetween ?s' st en = Inr N
            \<and> (\<forall>x\<in>set old. x \<notin> set N \<longrightarrow> x \<notin> set (childNodes ?s' self))"
    by blast
  note T = rerender_text [OF assms, of t]
  show "fst (metaObserverRun self st en (Str t) s) = Inr ()" by (rule T)
  show "childNodes (snd (metaObserverRun self st en (Str t) s)) self = A @ st # [nextNode s] @ en # B"
    by (rule T)
  show "nodeType (snd (metaObserverRun self st en (Str t) s)) (nextNode s) = Text t" by (rule T)
  note S = rerender_Strs [OF assms, of us]
  show "fst (metaObserverRun self st en (Iterable (map Str us)) s) = Inr ()" by (rule S)
  show "childNodes (snd (metaObserverRun self st en (Iterable (map Str us)) s)) self
            = A @ st # [nextNode s..<nextNode s + length us] @ en # B" by (rule S)
next
  assume a: "instanceofElement s n \<and> \<not> contains s n self"
  then have n: "instanceofElement s n" and nc: "\<not> contains s n self" by simp_all
  note R = rerender_node [OF assms n nc]
  show "fst (metaObserverRun self st en (NodeRef n) s) = Inr ()" by (rule R)
  show "childNodes (snd (metaObserverRun self st en (NodeRef n) s)) self
                 = filter (\<lambda>x. x \<noteq> n) A @ st # n # en # filter (\<lambda>x. x \<noteq> n) B" by (rule R)
next
  assume ts: "ts \<noteq> []"
  let ?s' = "rerenders self st en ts s"
  from rerenders_text [OF ts assms] obtain k where k:
    "childNodes ?s' self = A @ st # [k] @ en # B" "nodeType ?s' k = Text (last ts)"
    "wf ?s'" "instanceofElement ?s' self"
    by blast
  have "distinct (childNodes ?s' self)"
    using k(3,4) by (simp add: wf_distinct instanceofElement_less)
  with k(1) have "getNodesBetween ?s' st en = Inr [k]"
    using instanceofElement_less [OF k(4)] k(3) by (rule getNodesBetween_eq)
  with k show "\<exists>k. childNodes ?s' self = A @ st # [k] @ en # B
               \<and> nodeType ?s' k = Text (last ts)
               \<and> getNodesBetween ?s' st en = Inr [k]"
    by blast
qed


theorem rerender_replaces_witness:
  "wf crowdedPage \<and> instanceofElement crowdedPage 1 \<and> isComment crowdedPage 4 \<and> isComment crowdedPage 5
   \<and> childNodes crowdedPage 1 = [3] @ 4 # [6] @ 5 # [7]
   \<and> instanceofElement crowdedPage 2 \<and> \<not> contains crowdedPage 2 1
   \<and> childNodes (fold removeNode [6] crowdedPage) 1 = [3, 4, 5, 7]
   \<and> gone (fold removeNode [6] crowdedPage) 6
   \<and> fst (metaObserverRun 1 4 5 (Str ''y'') crowdedPage) = Inr ()
   \<and> childNodes (snd (metaObserverRun 1 4 5 (Str ''y'') crowdedPage)) 1 = [3, 4, 8, 5, 7]
   \<and> nodeType (snd (metaObserverRun 1 4 5 (Str ''y'') crowdedPage)) 8 = Text ''y''
   \<and> fst (metaObserverRun 1 4 5 (Iterable (map Str [''p'', ''q''])) crowdedPage) = Inr ()
   \<and> childNodes (snd (metaObserverRun 1 4 5 (Iterable (map Str [''p'', ''q''])) crowdedPage)) 1
        = [3, 4, 8, 9, 5, 7]
   \<and> fst (metaObserverRun 1 4 5 (NodeRef 2) crowdedPage) = Inr ()
   \<and> childNodes (snd (metaObserverRun 1 4 5 (NodeRef 2) crowdedPage)) 1 = [3, 4, 2, 5, 7]
   \<and> [''y'', ''z''] \<noteq> []
   \<and> (\<exists>k. childNodes (rerenders 1 4 5 [''y'', ''z''] crowdedPage) 1 = [3] @ 4 # [k] @ 5 # [7]
          \<and> nodeType (rerenders 1 4 5 [''y'', ''z''] crowdedPage) k = Text (last [''y'', ''z''])
          \<and> getNodesBetween (rerenders 1 4 5 [''y'', ''z''] crowdedPage) 4 5 = Inr [k])
   \<and> childNodes (rerenders 1 4 5 [''y'', ''z''] crowdedPage) 1 = [3, 4, 9, 5, 7]
   \<and> nodeType (rerenders 1 4 5 [''y'', ''z''] crowdedPage) 9 = Text ''z''"
proof -
  have h: "wf crowdedPage" "instanceofElement crowdedPage 1" "isComment crowdedPage 4" "isComment crowdedPage 5"
    "childNodes crowdedPage 1 = [3] @ 4 # [6] @ 5 # [7]"
    by code_simp+
  have g: "instanceofElement crowdedPage 2" "\<not> contains crowdedPage 2 1" "nextNode crowdedPage = 8"
    by code_simp+
  have c: "childNodes (rerenders 1 4 5 [''y'', ''z''] crowdedPage) 1 = [3, 4, 9, 5, 7]"
    "nodeType (rerenders 1 4 5 [''y'', ''z''] crowdedPage) 9 = Text ''z''"
    by code_simp+
  note r = rerender_replaces [OF h, where t = "''y''" and us = "[''p'', ''q'']" and n = 2
      and ts = "[''y'', ''z'']"]
  from r have 1: "childNodes (fold removeNode [6] crowdedPage) 1 = [3] @ 4 # 5 # [7]"
    "list_all (gone (fold removeNode [6] crowdedPage)) [6]"
    by blast+
  from r have 2: "fst (metaObserverRun 1 4 5 (Str ''y'') crowdedPage) = Inr ()"
    "childNodes (snd (metaObserverRun 1 4 5 (Str ''y'') crowdedPage)) 1 = [3] @ 4 # [nextNode crowdedPage] @ 5 # [7]"
    "nodeType (snd (metaObserverRun 1 4 5 (Str ''y'') crowdedPage)) (nextNode crowdedPage) = Text ''y''"
    "fst (metaObserverRun 1 4 5 (Iterable (map Str [''p'', ''q''])) crowdedPage) = Inr ()"
    "childNodes (snd (metaObserverRun 1 4 5 (Iterable (map Str [''p'', ''q''])) crowdedPage)) 1
       = [3] @ 4 # [nextNode crowdedPage..<nextNode crowdedPage + length [''p'', ''q'']] @ 5 # [7]"
    by blast+
  from r g have 3: "fst (metaObserverRun 1 4 5 (NodeRef 2) crowdedPage) = Inr ()"
    "childNodes (snd (metaObserverRun 1 4 5 (NodeRef 2) crowdedPage)) 1
       = filter (\<lambda>x. x \<noteq> 2) [3] @ 4 # 2 # 5 # filter (\<lambda>x. x \<noteq> 2) [7]"
    by blast+
  from r have 4: "\<exists>k. childNodes (rerenders 1 4 5 [''y'', ''z''] crowdedPage) 1 = [3] @ 4 # [k] @ 5 # [7]
          \<and> nodeType (rerenders 1 4 5 [''y'', ''z''] crowdedPage) k = Text (last [''y'', ''z''])
          \<and> getNodesBetween (rerenders 1 4 5 [''y'', ''z''] crowdedPage) 4 5 = Inr [k]"
    by blast
  have u: "[8..<8 + length [''p'', ''q'']] = [8, 9::nat]" by (simp add: upt_rec)
  from h g c 1 2 3 4 u show ?thesis
    by (simp del: metaObserverRun.simps fold_simps)
qed

text \<open>
  Claim C7 as stated fails for a run whose fresh value \<open>append\<close> does not accept: with
  both markers 4 and 5 children of the host element 1, the start marker first, the run
  removes the text node 6 that stood between them and then throws the TypeError; nothing
  is appended before the end marker.
\<close>

theorem rerender_throwing_value_counterexample:
  "parentNode crowdedPage 4 = Some 1 \<and> parentNode crowdedPage 5 = Some 1
   \<and> childNodes crowdedPage 1 = [3, 4, 6, 5, 7]
   \<and> fst (metaObserverRun 1 4 5 Unsupported crowdedPage) = Inl TypeError
   \<and> childNodes (snd (metaObserverRun 1 4 5 Unsupported crowdedPage)) 1 = [3, 4, 5, 7]"
  by code_simp

subsection \<open>The pairing of the markers is kept\<close>

lemma pairing_iff: "pairing s = (\<forall>(k, t)\<in>set (observerTrios s). paired s t)"
  by (simp add: pairing_def list_all_iff)

lemma wf_trio_less:
  "wf s \<Longrightarrow> (k, t) \<in> set (observerTrios s) \<Longrightarrow> start t < nextNode s \<and> endNode t < nextNode s"
  by (auto simp add: wf_iff)

lemma paired_keep:
  assumes pr: "paired s t"
    and ty: "\<And>x. x < nextNode s \<Longrightarrow> nodeType s' x = nodeType s x"
    and lt: "start t < nextNode s" "endNode t < nextNode s"
    and ps: "parentNode s' (start t) = parentNode s (start t) \<or> parentNode s' (start t) = None"
    and pe: "parentNode s' (endNode t) = parentNode s (endNode t) \<or> parentNode s' (endNode t) = None"
    and fo: "\<And>p. parentNode s' (start t) = Some p \<Longrightarrow> parentNode s' (endNode t) = Some p
        \<Longrightarrow> follows (start t) (endNode t) (childNodes s' p) = follows (start t) (endNode t) (childNodes s p)"
    and ks: "\<And>k. observerTriosGet s k \<noteq> None \<Longrightarrow> observerTriosGet s' k \<noteq> None"
  shows "paired s' t"
proof -
  have c: "isComment s' (start t)" "isComment s' (endNode t)"
    using pr ty lt by (simp_all add: paired_def isComment_def)
  have k: "observerTriosGet s' (NodeKey (start t)) \<noteq> None" "observerTriosGet s' (NodeKey (endNode t)) \<noteq> None"
    using pr ks by (simp_all add: paired_def)
  have u1: "underElement s' (start t)"
  proof (cases "parentNode s' (start t)")
    case None
    then show ?thesis by (simp add: underElement_def)
  next
    case (Some p)
    with ps have p: "parentNode s (start t) = Some p" by simp
    then have "p < nextNode s" by (simp add: parentNode_SomeD)
    moreover from pr p have "nodeType s p = Element" by (simp add: paired_def underElement_def)
    ultimately show ?thesis using Some ty by (simp add: underElement_def)
  qed
  have u2: "underElement s' (endNode t)"
  proof (cases "parentNode s' (endNode t)")
    case None
    then show ?thesis by (simp add: underElement_def)
  next
    case (Some p)
    with pe have p: "parentNode s (endNode t) = Some p" by simp
    then have "p < nextNode s" by (simp add: parentNode_SomeD)
    moreover from pr p have "nodeType s p = Element" by (simp add: paired_def underElement_def)
    ultimately show ?thesis using Some ty by (simp add: underElement_def)
  qed
  have o: "case parentNode s' (start t) of None \<Rightarrow> True
     | Some p \<Rightarrow> (case parentNode s' (endNode t) of None \<Rightarrow> True
         | Some q \<Rightarrow> p = q \<and> follows (start t) (endNode t) (childNodes s' p))"
  proof (cases "parentNode s' (start t)")
    case None
    then show ?thesis by simp
  next
    case (Some p)
    note sp = this
    show ?thesis
    proof (cases "parentNode s' (endNode t)")
      case None
      with sp show ?thesis by simp
    next
      case (Some q)
      from sp ps have p: "parentNode s (start t) = Some p" by simp
      from Some pe have q: "parentNode s (endNode t) = Some q" by simp
      from pr have "case parentNode s (start t) of None \<Rightarrow> True
          | Some p \<Rightarrow> (case parentNode s (endNode t) of None \<Rightarrow> True
              | Some q \<Rightarrow> p = q \<and> follows (start t) (endNode t) (childNodes s p))"
        unfolding paired_def by blast
      then have "p = q \<and> follows (start t) (endNode t) (childNodes s p)"
        using p q by auto
      then have pq: "p = q" and f: "follows (start t) (endNode t) (childNodes s p)" by blast+
      from Some pq have ep: "parentNode s' (endNode t) = Some p" by simp
      from fo [OF sp ep] f have "follows (start t) (endNode t) (childNodes s' p)" by simp
      with sp ep show ?thesis by simp
    qed
  qed
  from c k u1 u2 o show ?thesis by (simp add: paired_def)
qed

lemma paired_cong:
  assumes c: "childNodes s' = childNodes s" and ty: "nodeType s' = nodeType s" and n: "nextNode s' = nextNode s"
    and ks: "\<And>k. observerTriosGet s k \<noteq> None \<Longrightarrow> observerTriosGet s' k \<noteq> None"
    and lt: "start t < nextNode s" "endNode t < nextNode s"
    and pr: "paired s t"
  shows "paired s' t"
proof -
  have pn: "parentNode s' x = parentNode s x" for x
    using c n by (simp add: parentNode_def)
  show ?thesis
    using pr
  proof (rule paired_keep)
    show "nodeType s' x = nodeType s x" for x by (simp add: ty)
    show "start t < nextNode s" "endNode t < nextNode s" by (rule lt)+
    show "parentNode s' (start t) = parentNode s (start t) \<or> parentNode s' (start t) = None" by (simp add: pn)
    show "parentNode s' (endNode t) = parentNode s (endNode t) \<or> parentNode s' (endNode t) = None" by (simp add: pn)
    show "follows (start t) (endNode t) (childNodes s' p) = follows (start t) (endNode t) (childNodes s p)" for p
      by (simp add: c)
    show "observerTriosGet s' k \<noteq> None" if "observerTriosGet s k \<noteq> None" for k using that by (rule ks)
  qed
qed

lemma wf_sameTree: "sameTree s s' \<Longrightarrow> wf s \<Longrightarrow> wf s'"
proof -
  assume t: "sameTree s s'" and w: "wf s"
  have pn: "parentNode s' x = parentNode s x" for x
    using t by (simp add: sameTree_def parentNode_def)
  from t have e: "childNodes s' = childNodes s" "nextNode s' = nextNode s" "observerTrios s' = observerTrios s"
    by (simp_all add: sameTree_def)
  show ?thesis using w unfolding wf_iff pn e by simp
qed

lemma pairing_sameTree:
  assumes t: "sameTree s s'" and w: "wf s" and p: "pairing s"
  shows "pairing s'"
  unfolding pairing_iff
proof clarify
  fix k tr
  assume "(k, tr) \<in> set (observerTrios s')"
  with t have m: "(k, tr) \<in> set (observerTrios s)" by (simp add: sameTree_def)
  with p have pr: "paired s tr" by (auto simp add: pairing_iff)
  note lt = wf_trio_less [OF w m]
  from t have e: "childNodes s' = childNodes s" "nodeType s' = nodeType s" "nextNode s' = nextNode s"
    "observerTrios s' = observerTrios s"
    by (simp_all add: sameTree_def)
  show "paired s' tr"
    using e(1,2,3) _ _ _ pr
  proof (rule paired_cong)
    show "observerTriosGet s' k' \<noteq> None" if "observerTriosGet s k' \<noteq> None" for k'
      using that by (simp add: observerTriosGet_def e(4))
    show "start tr < nextNode s" "endNode tr < nextNode s" using lt by simp_all
  qed
qed

lemma pairing_removeNode:
  assumes wf: "wf s" and p: "pairing s"
  shows "pairing (removeNode x s)"
  unfolding pairing_iff
proof clarify
  fix k t
  assume "(k, t) \<in> set (observerTrios (removeNode x s))"
  then have m: "(k, t) \<in> set (observerTrios s)" by (simp add: removeNode_def)
  with p have pr: "paired s t" by (auto simp add: pairing_iff)
  note lt = wf_trio_less [OF wf m]
  show "paired (removeNode x s) t"
  proof (rule paired_keep [OF pr])
    show "nodeType (removeNode x s) y = nodeType s y" for y by (simp add: removeNode_def)
    show "start t < nextNode s" "endNode t < nextNode s" using lt by simp_all
    show "parentNode (removeNode x s) (start t) = parentNode s (start t) \<or> parentNode (removeNode x s) (start t) = None"
      by (cases "start t = x") (simp_all add: parentNode_removeNode_other)
    show "parentNode (removeNode x s) (endNode t) = parentNode s (endNode t) \<or> parentNode (removeNode x s) (endNode t) = None"
      by (cases "endNode t = x") (simp_all add: parentNode_removeNode_other)
    show "follows (start t) (endNode t) (childNodes (removeNode x s) q) = follows (start t) (endNode t) (childNodes s q)"
      if a: "parentNode (removeNode x s) (start t) = Some q" and b: "parentNode (removeNode x s) (endNode t) = Some q" for q
    proof -
      from a have "start t \<noteq> x" by auto
      moreover from b have "endNode t \<noteq> x" by auto
      ultimately show ?thesis by (simp add: removeNode_def follows_removeAll)
    qed
    show "observerTriosGet (removeNode x s) k' \<noteq> None" if "observerTriosGet s k' \<noteq> None" for k'
      using that by (simp add: observerTriosGet_def removeNode_def)
  qed
qed

lemma pairing_createNode:
  assumes wf: "wf s" and p: "pairing s"
  shows "pairing (snd (createNode ty s))"
  unfolding pairing_iff
proof clarify
  fix k t
  assume "(k, t) \<in> set (observerTrios (snd (createNode ty s)))"
  then have m: "(k, t) \<in> set (observerTrios s)" by simp
  with p have pr: "paired s t" by (auto simp add: pairing_iff)
  note lt = wf_trio_less [OF wf m]
  show "paired (snd (createNode ty s)) t"
  proof (rule paired_keep [OF pr])
    show "nodeType (snd (createNode ty s)) y = nodeType s y" if "y < nextNode s" for y using that by simp
    show "start t < nextNode s" "endNode t < nextNode s" using lt by simp_all
    show "parentNode (snd (createNode ty s)) (start t) = parentNode s (start t) \<or> parentNode (snd (createNode ty s)) (start t) = None"
      by simp
    show "parentNode (snd (createNode ty s)) (endNode t) = parentNode s (endNode t) \<or> parentNode (snd (createNode ty s)) (endNode t) = None"
      by simp
    show "follows (start t) (endNode t) (childNodes (snd (createNode ty s)) q) = follows (start t) (endNode t) (childNodes s q)"
      if a: "parentNode (snd (createNode ty s)) (start t) = Some q" for q
    proof -
      from a have "q < nextNode s" by (simp add: parentNode_SomeD)
      then show ?thesis by simp
    qed
    show "observerTriosGet (snd (createNode ty s)) k' \<noteq> None" if "observerTriosGet s k' \<noteq> None" for k'
      using that by (simp add: observerTriosGet_def)
  qed
qed

lemma pairing_insertBefore:
  assumes wf: "wf s" and p: "pairing s" and ins: "insertBefore q n ref s = Inr s'"
    and nm: "\<And>k t. (k, t) \<in> set (observerTrios s)
        \<Longrightarrow> start t \<notin> set (movedNodes s n) \<and> endNode t \<notin> set (movedNodes s n)"
  shows "pairing s'"
  unfolding pairing_iff
proof clarify
  fix k t
  note I = insertBefore_Inr [OF ins]
  assume "(k, t) \<in> set (observerTrios s')"
  then have m: "(k, t) \<in> set (observerTrios s)" by (simp add: I(4))
  with p have pr: "paired s t" by (auto simp add: pairing_iff)
  note lt = wf_trio_less [OF wf m]
  from nm [OF m] have a: "start t \<notin> set (movedNodes s n)" and b: "endNode t \<notin> set (movedNodes s n)"
    by simp_all
  show "paired s' t"
  proof (rule paired_keep [OF pr])
    show "nodeType s' y = nodeType s y" for y by (simp add: I(3))
    show "start t < nextNode s" "endNode t < nextNode s" using lt by simp_all
    show "parentNode s' (start t) = parentNode s (start t) \<or> parentNode s' (start t) = None"
      using parentNode_insertBefore_other [OF ins a] by simp
    show "parentNode s' (endNode t) = parentNode s (endNode t) \<or> parentNode s' (endNode t) = None"
      using parentNode_insertBefore_other [OF ins b] by simp
    show "follows (start t) (endNode t) (childNodes s' r) = follows (start t) (endNode t) (childNodes s r)" for r
    proof (cases "r = q")
      case True
      from I(10) obtain r' where
        "childNodes s' q = insertAt (movedNodes s n) r' (filter (\<lambda>x. x \<notin> set (movedNodes s n)) (childNodes s q))"
        by blast
      with True a b show ?thesis by (simp add: follows_insertAt follows_filter)
    next
      case False
      from I(9) [OF False] a b show ?thesis by (simp add: follows_filter)
    qed
    show "observerTriosGet s' k' \<noteq> None" if "observerTriosGet s k' \<noteq> None" for k'
      using that by (simp add: observerTriosGet_def I(4))
  qed
qed

lemma marker_not_moved:
  assumes wf: "wf s" and pr: "paired s t" and i: "insertable s n"
  shows "start t \<notin> set (movedNodes s n) \<and> endNode t \<notin> set (movedNodes s n)"
proof -
  have "m \<notin> set (movedNodes s n)"
    if c: "isComment s m" and u: "underElement s m" and k: "observerTriosGet s (NodeKey m) \<noteq> None" for m
  proof
    assume mm: "m \<in> set (movedNodes s n)"
    show False
    proof (cases "nodeType s n = DocumentFragment")
      case True
      with mm have "m \<in> set (childNodes s n)" by (simp add: movedNodes_def)
      moreover have "n < nextNode s" using i by (rule insertable_less)
      ultimately have "parentNode s m = Some n" using wf by (simp add: wf_parentNode)
      with u True show False by (simp add: underElement_def)
    next
      case False
      with mm have mn: "m = n" by (simp add: movedNodes_def)
      with c have "nodeType s n \<noteq> Element" by (auto simp add: isComment_def)
      with i False k mn show False
        by (auto simp add: insertable_def instanceofElement_def instanceofDocumentFragment_def)
    qed
  qed
  with pr show ?thesis by (simp add: paired_def)
qed

lemma pairing_registerTrio:
  assumes wf: "wf s" and p: "pairing s" and c: "childNodes s self = A @ st # en # B"
    and self: "self < nextNode s" and el: "nodeType s self = Element"
    and cs: "isComment s st" and ce: "isComment s en"
  shows "pairing (registerTrio st en u s)"
proof -
  let ?s' = "registerTrio st en u s"
  let ?t = "\<lparr>start = st, endNode = en, observer = u\<rparr>"
  have pn: "parentNode ?s' x = parentNode s x" for x
    by (simp add: registerTrio_def parentNode_def Let_def)
  have same: "childNodes ?s' = childNodes s" "nodeType ?s' = nodeType s" "nextNode ?s' = nextNode s"
    by (simp_all add: registerTrio_def Let_def)
  have keys: "observerTriosGet ?s' k \<noteq> None" if "observerTriosGet s k \<noteq> None" for k
    using that by (simp add: registerTrio_def observerTriosGet_def Let_def)
  have old: "paired ?s' t" if "paired s t" and "(k, t) \<in> set (observerTrios s)" for k t
    using same keys _ _ that(1)
  proof (rule paired_cong)
    show "start t < nextNode s" "endNode t < nextNode s" using wf_trio_less [OF wf that(2)] by simp_all
  qed
  have d: "distinct (childNodes s self)" using wf self by (rule wf_distinct)
  have ps: "parentNode s st = Some self" "parentNode s en = Some self"
    using wf self c by (simp_all add: wf_parentNode)
  have "st \<notin> set A" using d c by simp
  then have f: "follows st en (childNodes s self)" unfolding c by (rule follows_adjacent)
  have k1: "observerTriosGet ?s' (NodeKey st) \<noteq> None" "observerTriosGet ?s' (NodeKey en) \<noteq> None"
    by (simp_all add: registerTrio_def observerTriosGet_def Let_def)
  have ic: "isComment ?s' st" "isComment ?s' en" using cs ce by (simp_all add: isComment_def same)
  have ue: "underElement ?s' st" "underElement ?s' en"
    using ps el by (simp_all add: underElement_def pn same)
  have new: "paired ?s' ?t"
    unfolding paired_def using k1 ic ue f ps by (simp add: pn same)
  have x: "set (observerTrios ?s') = {(ObserverKey u, ?t), (NodeKey en, ?t), (NodeKey st, ?t)} \<union> set (observerTrios s)"
    by (simp add: registerTrio_def Let_def)
  show ?thesis
    unfolding pairing_iff
  proof clarify
    fix k t
    assume "(k, t) \<in> set (observerTrios ?s')"
    then have "t = ?t \<or> (k, t) \<in> set (observerTrios s)" unfolding x by auto
    then show "paired ?s' t"
    proof
      assume "t = ?t"
      then show ?thesis using new by simp
    next
      assume m: "(k, t) \<in> set (observerTrios s)"
      with p have "paired s t" unfolding pairing_iff by auto
      then show ?thesis using m by (rule old)
    qed
  qed
qed

lemma step_pairing:
  assumes "step self s s'" and wf: "wf s" and el: "nodeType s self = Element" and p: "pairing s"
  shows "pairing s'"
  using assms(1)
proof cases
  case (createS ty tx)
  show ?thesis unfolding createS(1) using wf p by (rule pairing_createNode)
next
  case (insertS n ref)
  show ?thesis
  proof (rule pairing_insertBefore [OF wf p insertS(1)])
    fix k t
    assume "(k, t) \<in> set (observerTrios s)"
    with p have "paired s t" unfolding pairing_iff by auto
    with wf show "start t \<notin> set (movedNodes s n) \<and> endNode t \<notin> set (movedNodes s n)"
      using insertS(3) by (rule marker_not_moved)
  qed
next
  case (removeS x)
  show ?thesis unfolding removeS(1) using wf p by (rule pairing_removeNode)
next
  case (registerS A st en B u)
  show ?thesis
    unfolding registerS(1) using wf p registerS(2,3) el registerS(4,5) by (rule pairing_registerTrio)
next
  case otherS
  then have "sameTree s s'" unfolding sameTree_def by blast
  then show ?thesis using wf p by (rule pairing_sameTree)
qed

lemma edits_pairing:
  assumes "edits self s s'" and "wf s" and "instanceofElement s self" and "pairing s"
  shows "pairing s'"
  using assms
proof (induction rule: edits.induct)
  case (edits_refl s)
  then show ?case by simp
next
  case (edits_step s s1 s2)
  have "wf s1" using edits_step.hyps(1) edits_step.prems(1) by (rule wf_edits)
  moreover have "instanceofElement s1 self"
    using edits_step.hyps(1) edits_step.prems(2) by (rule edits_instanceofElement)
  then have "nodeType s1 self = Element" by (simp add: instanceofElement_def)
  moreover have "pairing s1" using edits_step.IH edits_step.prems by blast
  ultimately show ?case using edits_step.hyps(2) step_pairing by blast
qed

subsection \<open>Every page the program reaches is well formed, its markers paired\<close>

lemma sameTree_observerStop: "sameTree s (observerStop u s)"
  by (simp add: sameTree_def observerStop_def)

lemma wf_clearTrio: "wf s \<Longrightarrow> wf (clearTrio n s)"
proof -
  assume wf: "wf s"
  show ?thesis
  proof (cases "observerTriosGet s (NodeKey n)")
    case None
    then show ?thesis using wf by (simp add: clearTrio_def)
  next
    case (Some t)
    have "wf (removeNode (endNode t) (removeNode (start t) s))"
      using wf by (intro wf_removeNode)
    then have "wf (clear t s)"
      unfolding clear_def using sameTree_observerStop by (rule wf_sameTree [rotated])
    then show ?thesis using Some by (simp add: clearTrio_def)
  qed
qed

lemma pairing_clearTrio: "wf s \<Longrightarrow> pairing s \<Longrightarrow> pairing (clearTrio n s)"
proof -
  assume wf: "wf s" and p: "pairing s"
  show ?thesis
  proof (cases "observerTriosGet s (NodeKey n)")
    case None
    then show ?thesis using p by (simp add: clearTrio_def)
  next
    case (Some t)
    let ?s2 = "removeNode (endNode t) (removeNode (start t) s)"
    have w1: "wf (removeNode (start t) s)" using wf by (rule wf_removeNode)
    have p1: "pairing (removeNode (start t) s)" using wf p by (rule pairing_removeNode)
    have w2: "wf ?s2" using w1 by (rule wf_removeNode)
    have p2: "pairing ?s2" using w1 p1 by (rule pairing_removeNode)
    have "pairing (clear t s)"
      unfolding clear_def using sameTree_observerStop w2 p2 by (rule pairing_sameTree)
    then show ?thesis using Some by (simp add: clearTrio_def)
  qed
qed

lemma inv_fold_clearTrio:
  "wf s \<and> pairing s \<Longrightarrow> wf (fold clearTrio ns s) \<and> pairing (fold clearTrio ns s)"
proof (induction ns arbitrary: s)
  case Nil
  then show ?case by simp
next
  case (Cons n ns)
  from Cons.prems have "wf (clearTrio n s) \<and> pairing (clearTrio n s)"
    using wf_clearTrio pairing_clearTrio by blast
  from Cons.IH [OF this] show ?case by simp
qed

lemma inv_bookmarkObserver:
  "wf s \<and> pairing s \<Longrightarrow> wf (bookmarkObserver rs s) \<and> pairing (bookmarkObserver rs s)"
proof (induction rs arbitrary: s)
  case Nil
  then show ?case by simp
next
  case (Cons r rs)
  from Cons.prems have "wf (fold clearTrio (removedNodes r) s) \<and> pairing (fold clearTrio (removedNodes r) s)"
    by (rule inv_fold_clearTrio)
  from Cons.IH [OF this] show ?case by (simp add: bookmarkObserver_Cons)
qed

lemma thenCallback_snd:
  "snd (thenCallback self ph v s) = snd (appendEl self v (Some ph) s)
   \<or> snd (thenCallback self ph v s) = removeNode ph (snd (appendEl self v (Some ph) s))"
  by (cases "appendEl self v (Some ph) s" rule: prod.exhaust; cases "fst (appendEl self v (Some ph) s)")
    (auto simp add: thenCallback_def)

lemma reachable_inv: "reachable s \<Longrightarrow> wf s \<and> pairing s"
proof (induction rule: reachable.induct)
  case (start_page s)
  then show ?case by (simp add: pairing_def)
next
  case (create_element s)
  then show ?case using wf_createNode pairing_createNode by blast
next
  case (append_child s self c ip)
  then have wf: "wf s" and p: "pairing s" by simp_all
  have e: "edits self s (snd (appendEl self c ip s))" using wf append_child.hyps(2) by (rule appendEl_edits)
  show ?case using wf_edits [OF e wf] edits_pairing [OF e wf append_child.hyps(2) p] by blast
next
  case (rerender s self st en v)
  then have wf: "wf s" and p: "pairing s" by simp_all
  have e: "edits self s (snd (metaObserverRun self st en v s))"
    using wf rerender.hyps(2) by (rule metaObserverRun_edits)
  show ?case using wf_edits [OF e wf] edits_pairing [OF e wf rerender.hyps(2) p] by blast
next
  case (resolve s self ph v)
  then have wf: "wf s" and p: "pairing s" by simp_all
  let ?s1 = "snd (appendEl self v (Some ph) s)"
  have e: "edits self s ?s1" using wf resolve.hyps(2) by (rule appendEl_edits)
  have w1: "wf ?s1" using e wf by (rule wf_edits)
  have p1: "pairing ?s1" using e wf resolve.hyps(2) p by (rule edits_pairing)
  have w2: "wf (removeNode ph ?s1)" using w1 by (rule wf_removeNode)
  have p2: "pairing (removeNode ph ?s1)" using w1 p1 by (rule pairing_removeNode)
  from thenCallback_snd [of self ph v s] w1 p1 w2 p2 show ?case by metis
next
  case (detach s n)
  then show ?case using wf_removeNode pairing_removeNode by blast
next
  case (attach s n p ref s')
  then have wf: "wf s" and pr: "pairing s" by simp_all
  have n: "n < nextNode s" using attach.hyps(2) by (rule instanceofElement_less)
  have w: "wf s'" using wf attach.hyps(4) attach.hyps(3) n by (rule wf_insertBefore)
  have "pairing s'"
  proof (rule pairing_insertBefore [OF wf pr attach.hyps(4)])
    fix k t
    assume "(k, t) \<in> set (observerTrios s)"
    with pr have "paired s t" unfolding pairing_iff by auto
    moreover have "insertable s n" using attach.hyps(2) by (simp add: insertable_def)
    ultimately show "start t \<notin> set (movedNodes s n) \<and> endNode t \<notin> set (movedNodes s n)"
      using wf marker_not_moved by blast
  qed
  with w show ?case by blast
next
  case (attachment_watcher s mutationList)
  then show ?case
    using docObserver_sameTree [of s mutationList] wf_sameTree pairing_sameTree by blast
next
  case (cleanup_watcher s mutationList)
  then show ?case by (intro inv_bookmarkObserver) simp
qed


text \<open>
  Claim C8 (marker pairing). On every page the program reaches, by any sequence of
  \<open>append\<close> calls, re-renders, Promise resolutions, runs of the two watchers, and
  detachments and attachments of elements with their subtrees, take a trio of the
  registry whose two markers both have a parent. Then the parent is the same element, both
  markers are comment nodes, and the end marker is a later sibling of the start marker, so
  that the sibling walk of \<open>getNodesBetween\<close> from the start marker finds the end marker
  and returns the nodes between them. A run of the re-render rule on that page leaves
  between the two markers exactly the nodes it appended, the children before the start
  marker and after the end marker staying outside, and the page it leaves is reached too.
\<close>

theorem marker_pairing:
  assumes "reachable s" and "(k, trio) \<in> set (observerTrios s)"
    and "parentNode s (start trio) = Some p" and "parentNode s (endNode trio) = Some q"
  shows "p = q \<and> instanceofElement s p
       \<and> isComment s (start trio) \<and> isComment s (endNode trio)
       \<and> endNode trio \<in> set (nextSiblings s (start trio))
       \<and> (\<exists>A old B. childNodes s p = A @ start trio # old @ endNode trio # B
             \<and> getNodesBetween s (start trio) (endNode trio) = Inr old
             \<and> (\<exists>N. childNodes (snd (metaObserverRun p (start trio) (endNode trio) v s)) p
                        = filter (\<lambda>x. x \<notin> set N) A @ start trio # N @ endNode trio
                            # filter (\<lambda>x. x \<notin> set N) B
                    \<and> getNodesBetween (snd (metaObserverRun p (start trio) (endNode trio) v s))
                         (start trio) (endNode trio) = Inr N))
       \<and> reachable (snd (metaObserverRun p (start trio) (endNode trio) v s))"
proof -
  let ?st = "start trio" and ?en = "endNode trio"
  let ?s' = "snd (metaObserverRun p ?st ?en v s)"
  from assms(1) have wf: "wf s" and pg: "pairing s" by (simp_all add: reachable_inv)
  from pg assms(2) have pr: "paired s trio" unfolding pairing_iff by auto
  from pr have cs: "isComment s ?st" and ce: "isComment s ?en"
    and us: "underElement s ?st"
    and o: "case parentNode s ?st of None \<Rightarrow> True
          | Some p \<Rightarrow> (case parentNode s ?en of None \<Rightarrow> True
              | Some q \<Rightarrow> p = q \<and> follows ?st ?en (childNodes s p))"
    unfolding paired_def by blast+
  from o assms(3,4) have pq: "p = q" and f: "follows ?st ?en (childNodes s p)" by auto
  have p: "p < nextNode s" using assms(3) by (simp add: parentNode_SomeD)
  from us assms(3) have "nodeType s p = Element" by (simp add: underElement_def)
  with p have el: "instanceofElement s p" by (simp add: instanceofElement_def)
  have ns: "?en \<in> set (nextSiblings s ?st)"
    using f assms(3) by (simp add: nextSiblings_def follows_def)
  from follows_split [OF f] obtain A old B where c: "childNodes s p = A @ ?st # old @ ?en # B"
    by blast
  have d: "distinct (childNodes s p)" using wf p by (rule wf_distinct)
  have g: "getNodesBetween s ?st ?en = Inr old" using c d p wf by (rule getNodesBetween_eq)
  obtain N where N: "childNodes ?s' p
       = filter (\<lambda>x. x \<notin> set N) A @ ?st # N @ ?en # filter (\<lambda>x. x \<notin> set N) B"
    using metaObserverRun_placed [OF wf el cs ce c, of v] by blast
  have e: "edits p s ?s'" using wf el by (rule metaObserverRun_edits)
  have wf': "wf ?s'" using e wf by (rule wf_edits)
  have el': "instanceofElement ?s' p" using e el by (rule edits_instanceofElement)
  have d': "distinct (childNodes ?s' p)"
    using wf' el' by (simp add: wf_distinct instanceofElement_less del: metaObserverRun.simps)
  have g': "getNodesBetween ?s' ?st ?en = Inr N"
    using N d' instanceofElement_less [OF el'] wf' by (rule getNodesBetween_eq)
  have r: "reachable ?s'" using assms(1) el by (rule reachable.rerender)
  from c g N g' have "\<exists>A old B. childNodes s p = A @ ?st # old @ ?en # B
             \<and> getNodesBetween s ?st ?en = Inr old
             \<and> (\<exists>N. childNodes ?s' p
                        = filter (\<lambda>x. x \<notin> set N) A @ ?st # N @ ?en # filter (\<lambda>x. x \<notin> set N) B
                    \<and> getNodesBetween ?s' ?st ?en = Inr N)"
    by blast
  with pq el cs ce ns r show ?thesis by blast
qed


theorem marker_pairing_witness:
  "reachable reattachedPage
   \<and> (NodeKey 4, \<lparr>start = 4, endNode = 5, observer = 0\<rparr>) \<in> set (observerTrios reattachedPage)
   \<and> parentNode reattachedPage 4 = Some 1 \<and> parentNode reattachedPage 5 = Some 1
   \<and> childNodes (removeNode 1 crowdedPage) document = []
   \<and> childNodes reattachedPage document = [1]
   \<and> childNodes reattachedPage 1 = [3, 4, 6, 5, 7]
   \<and> instanceofElement reattachedPage 1
   \<and> 5 \<in> set (nextSiblings reattachedPage 4)
   \<and> getNodesBetween reattachedPage 4 5 = Inr [6]
   \<and> reachable (snd (metaObserverRun 1 4 5 (Str ''y'') reattachedPage))
   \<and> childNodes (snd (metaObserverRun 1 4 5 (Str ''y'') reattachedPage)) 1 = [3, 4, 8, 5, 7]"
proof -
  have 0: "wf examplePage" "observerTrios examplePage = []" "instanceofElement examplePage 1"
    by code_simp+
  have r0: "reachable examplePage" using 0(1,2) by (rule reachable.start_page)
  have r1: "reachable crowdedPage"
    unfolding crowdedPage_def using r0 0(3) by (rule reachable.append_child)
  have 1: "instanceofElement crowdedPage 1" by code_simp
  have r2: "reachable (removeNode 1 crowdedPage)" using r1 1 by (rule reachable.detach)
  have 2: "instanceofElement (removeNode 1 crowdedPage) 1" "document < nextNode (removeNode 1 crowdedPage)"
    "case insertBefore document 1 None (removeNode 1 crowdedPage) of Inl _ \<Rightarrow> False | Inr _ \<Rightarrow> True"
    by code_simp+
  from 2(3) obtain s' where i: "insertBefore document 1 None (removeNode 1 crowdedPage) = Inr s'"
    by (cases "insertBefore document 1 None (removeNode 1 crowdedPage)") auto
  have s': "reattachedPage = s'" unfolding reattachedPage_def i by (simp only: sum.case)
  have r3: "reachable reattachedPage" unfolding s' using r2 2(1,2) i by (rule reachable.attach)
  have h: "(NodeKey 4, \<lparr>start = 4, endNode = 5, observer = 0\<rparr>) \<in> set (observerTrios reattachedPage)"
    "parentNode reattachedPage 4 = Some 1" "parentNode reattachedPage 5 = Some 1"
    by code_simp+
  have c: "childNodes (removeNode 1 crowdedPage) document = []"
    "childNodes reattachedPage document = [1]"
    "childNodes reattachedPage 1 = [3, 4, 6, 5, 7]"
    "getNodesBetween reattachedPage 4 5 = Inr [6]"
    "childNodes (snd (metaObserverRun 1 4 5 (Str ''y'') reattachedPage)) 1 = [3, 4, 8, 5, 7]"
    by code_simp+
  from marker_pairing [OF r3 h(1), of 1 1 "Str ''y''"] h(2,3)
  have "instanceofElement reattachedPage 1"
    "5 \<in> set (nextSiblings reattachedPage 4)"
    "reachable (snd (metaObserverRun 1 4 5 (Str ''y'') reattachedPage))"
    by simp_all
  with r3 h c show ?thesis by simp
qed

end
